theory Spec2Isabelle
  imports Main "HOL-Library.Word"
begin

unbundle bit_operations_syntax

section \<open>Data model of the value predictor (vp.h)\<close>

text \<open>
  \<^verbatim>\<open>PC\<close>, \<^verbatim>\<open>Value\<close> and \<^verbatim>\<open>InstSeqNum\<close> are \<^verbatim>\<open>uint64_t\<close>; \<^verbatim>\<open>size_t\<close> is taken
  as 64 bits wide and \<^verbatim>\<open>unsigned int\<close> as 32 bits wide. Arithmetic on words wraps.
\<close>

type_synonym PC = "64 word"
type_synonym Value = "64 word"
type_synonym InstSeqNum = "64 word"
type_synonym size_t = "64 word"

text \<open>\<^verbatim>\<open>enum Confidence { low=0, medium=1, high=2 }\<close>; comparisons of confidences in
  the source compare the enumerators' integer values.\<close>

datatype Confidence = low | medium | high

fun confidence_value :: "Confidence \<Rightarrow> nat" where
  "confidence_value low = 0"
| "confidence_value medium = 1"
| "confidence_value high = 2"

text \<open>Failures of the source: the two exceptions it throws, a failed \<^verbatim>\<open>assert\<close>,
  \<^verbatim>\<open>std::optional::value()\<close> on an empty optional, and operations whose behaviour C++
  leaves undefined (a shift by the width or more, a remainder by zero, a \<^verbatim>\<open>bitset\<close>
  or \<^verbatim>\<open>deque\<close> access out of range).\<close>

datatype error =
    InvalidArgument
  | RuntimeError
  | AssertionFailure
  | BadOptionalAccess
  | UndefinedBehaviour

subsection \<open>EqualityPredictorEntry: the dual counter\<close>

record EqualityPredictorEntry =
  tag :: "64 word"
  taken_counter :: size_t
  not_taken_counter :: size_t

definition EqualityPredictorEntry_new :: "64 word \<Rightarrow> EqualityPredictorEntry" where
  "EqualityPredictorEntry_new t = \<lparr>tag = t, taken_counter = 0, not_taken_counter = 0\<rparr>"

definition update :: "bool \<Rightarrow> EqualityPredictorEntry \<Rightarrow> EqualityPredictorEntry" where
  "update outcome e =
     (if outcome then
        (if taken_counter e < 7 then e\<lparr>taken_counter := taken_counter e + 1\<rparr>
         else if not_taken_counter e > 0 then e\<lparr>not_taken_counter := not_taken_counter e - 1\<rparr>
         else e)
      else
        (if not_taken_counter e < 7 then e\<lparr>not_taken_counter := not_taken_counter e + 1\<rparr>
         else if taken_counter e > 0 then e\<lparr>taken_counter := taken_counter e - 1\<rparr>
         else e))"

definition getDirection :: "EqualityPredictorEntry \<Rightarrow> bool" where
  "getDirection e = (taken_counter e > not_taken_counter e)"

text \<open>The second test of \<^verbatim>\<open>decay\<close> reads the counters the first statement left.\<close>

definition decay :: "EqualityPredictorEntry \<Rightarrow> EqualityPredictorEntry" where
  "decay e =
     (let e1 = (if taken_counter e > not_taken_counter e
                then e\<lparr>taken_counter := taken_counter e - 1\<rparr> else e)
      in if not_taken_counter e1 > taken_counter e1
         then e1\<lparr>not_taken_counter := not_taken_counter e1 - 1\<rparr> else e1)"

text \<open>\<^verbatim>\<open>size_t conf = 2-(medium+(low<<1))\<close>: the right-hand side is computed on
  \<^verbatim>\<open>int\<close> and converted to \<^verbatim>\<open>size_t\<close>. The two local booleans are named
  \<open>is_medium\<close> and \<open>is_low\<close> here, the enumerators keeping their names.\<close>

definition getConfidence :: "EqualityPredictorEntry \<Rightarrow> Confidence" where
  "getConfidence e =
     (let is_medium = (taken_counter e = 2 * not_taken_counter e + 1
                       \<or> not_taken_counter e = 2 * taken_counter e + 1);
          is_low = (taken_counter e < 2 * not_taken_counter e + 1
                    \<and> not_taken_counter e < 2 * taken_counter e + 1);
          conf = (word_of_int (2 - (of_bool is_medium + push_bit 1 (of_bool is_low))) :: size_t)
      in if conf = 0 then low else if conf = 1 then medium else high)"

subsection \<open>PathTracker: the folded branch history\<close>

text \<open>\<^verbatim>\<open>folded_path\<close> is an \<^verbatim>\<open>unsigned int\<close>, \<^verbatim>\<open>outcome_buffer\<close> a
  \<^verbatim>\<open>std::bitset<MAX_HIST>\<close> with \<^verbatim>\<open>MAX_HIST = 200\<close>: all 200 bits take part in its
  shifts, whatever \<^verbatim>\<open>ghist_bits\<close> is.\<close>

record PathTracker =
  ghist_bits :: size_t
  index_size :: size_t
  tag_size :: size_t
  folded_path :: "32 word"
  outcome_buffer :: "200 word"

definition MAX_HIST :: nat where
  "MAX_HIST = 200"

definition MAX_BRANCH_SPEC_DISTANCE :: nat where
  "MAX_BRANCH_SPEC_DISTANCE = 64"

text \<open>The constructor's only check is on the \<^verbatim>\<open>size_t\<close> sum of the two widths.\<close>

definition PathTracker_new :: "size_t \<Rightarrow> size_t \<Rightarrow> size_t \<Rightarrow> error + PathTracker" where
  "PathTracker_new g i t =
     (if i + t > 31 then Inl InvalidArgument
      else Inr \<lparr>ghist_bits = g, index_size = i, tag_size = t,
                folded_path = 0, outcome_buffer = 0\<rparr>)"

text \<open>\<^verbatim>\<open>outcome_buffer[n] = b\<close>.\<close>

definition bitset_assign :: "nat \<Rightarrow> bool \<Rightarrow> 200 word \<Rightarrow> 200 word" where
  "bitset_assign n b w = (if b then set_bit n w else unset_bit n w)"

text \<open>
  The shifts and the remainder of \<^verbatim>\<open>addBranch\<close> and \<^verbatim>\<open>revertBranches\<close> are defined
  when the width \<open>W = index_size + tag_size\<close> is in \<open>[1, 31]\<close> (at \<open>W = 0\<close> the source
  shifts by \<open>W - 1\<close>, which wraps, and takes a remainder by zero), and the read of
  \<^verbatim>\<open>outcome_buffer[ghist_bits - 1]\<close> when \<^verbatim>\<open>ghist_bits\<close> is at most 200. The
  constructor lets only \<open>W \<le> 31\<close> through; \<open>W = 0\<close> and \<^verbatim>\<open>ghist_bits > 200\<close> it
  accepts.
\<close>

definition fold_defined :: "PathTracker \<Rightarrow> bool" where
  "fold_defined p \<longleftrightarrow>
     unat (ghist_bits p) \<le> MAX_HIST
     \<and> 1 \<le> unat (index_size p + tag_size p) \<and> unat (index_size p + tag_size p) \<le> 31"

definition addBranch :: "bool \<Rightarrow> PathTracker \<Rightarrow> error + PathTracker" where
  "addBranch outcome p =
     (if ghist_bits p = 0 then Inr p
      else if \<not> fold_defined p then Inl UndefinedBehaviour
      else
        let old_outcome = bit (outcome_buffer p) (unat (ghist_bits p - 1));
            buf = bitset_assign 0 outcome (push_bit 1 (outcome_buffer p));
            msb = drop_bit (unat (index_size p + tag_size p - 1)) (folded_path p) AND 1;
            fp1 = (push_bit 1 (folded_path p)
                     AND (push_bit (unat (index_size p + tag_size p)) 1 - 1)) OR msb;
            fold_position = unat (ghist_bits p mod (index_size p + tag_size p));
            fp2 = fp1 XOR push_bit fold_position (of_bool old_outcome);
            fp3 = fp2 XOR of_bool outcome
        in Inr (p\<lparr>folded_path := fp3, outcome_buffer := buf\<rparr>))"

text \<open>One iteration of the loop of \<^verbatim>\<open>revertBranches\<close>.\<close>

definition revertBranches_step :: "PathTracker \<Rightarrow> error + PathTracker" where
  "revertBranches_step p =
     (if \<not> fold_defined p then Inl UndefinedBehaviour
      else
        let outcome = bit (outcome_buffer p) 0;
            buf = drop_bit 1 (outcome_buffer p);
            fp1 = folded_path p XOR of_bool outcome;
            fold_position = unat (ghist_bits p mod (index_size p + tag_size p));
            old_outcome = bit buf (unat (ghist_bits p - 1));
            fp2 = fp1 XOR push_bit fold_position (of_bool old_outcome);
            lsb = fp2 AND 1;
            fp3 = drop_bit 1 fp2;
            fp4 = fp3 OR push_bit (unat (index_size p + tag_size p - 1)) lsb
        in Inr (p\<lparr>folded_path := fp4, outcome_buffer := buf\<rparr>))"

primrec revertBranches_loop :: "nat \<Rightarrow> PathTracker \<Rightarrow> error + PathTracker" where
  "revertBranches_loop 0 p = Inr p"
| "revertBranches_loop (Suc n) p =
     (case revertBranches_step p of
        Inl e \<Rightarrow> Inl e
      | Inr p' \<Rightarrow> revertBranches_loop n p')"

definition revertBranches :: "size_t \<Rightarrow> PathTracker \<Rightarrow> error + PathTracker" where
  "revertBranches num p =
     (if ghist_bits p = 0 then Inr p else revertBranches_loop (unat num) p)"

text \<open>\<^verbatim>\<open>unsigned combined = (pc ^ (pc >> 2) ^ (pc >> 5)) ^ folded_path\<close>: the exclusive or
  is taken on 64 bits and the result truncated to \<^verbatim>\<open>unsigned\<close>.\<close>

definition combined :: "PC \<Rightarrow> PathTracker \<Rightarrow> 32 word" where
  "combined pc p = ucast ((pc XOR drop_bit 2 pc XOR drop_bit 5 pc) XOR ucast (folded_path p))"

text \<open>A shift of an \<^verbatim>\<open>unsigned\<close> by 32 or more is undefined; it can only happen when the
  sum checked by the constructor wrapped.\<close>

definition getIndex :: "PC \<Rightarrow> PathTracker \<Rightarrow> error + 32 word" where
  "getIndex pc p =
     (if unat (index_size p) \<ge> 32 then Inl UndefinedBehaviour
      else Inr (combined pc p AND (push_bit (unat (index_size p)) 1 - 1)))"

definition getTag :: "PC \<Rightarrow> PathTracker \<Rightarrow> error + 32 word" where
  "getTag pc p =
     (if unat (index_size p) \<ge> 32 \<or> unat (tag_size p) \<ge> 32 then Inl UndefinedBehaviour
      else Inr (drop_bit (unat (index_size p)) (combined pc p)
                  AND (push_bit (unat (tag_size p)) 1 - 1)))"

text \<open>Replaying a sequence of outcomes, oldest first, through \<^verbatim>\<open>addBranch\<close>.\<close>

fun addBranches :: "bool list \<Rightarrow> PathTracker \<Rightarrow> error + PathTracker" where
  "addBranches [] p = Inr p"
| "addBranches (outcome # outcomes) p =
     (case addBranch outcome p of
        Inl e \<Rightarrow> Inl e
      | Inr p' \<Rightarrow> addBranches outcomes p')"

subsection \<open>EqualityPredictorComponent: a tagged table with its PathTracker\<close>

record EqualityPredictorComponent =
  path :: PathTracker
  components :: "EqualityPredictorEntry list"

text \<open>The member \<^verbatim>\<open>path\<close> is declared, and so constructed, before the table: a rejected
  width throws before any entry exists. The table holds \<^verbatim>\<open>size\<close> default entries
  (tag 0, counters 0). Running out of memory for the table is outside the model.\<close>

definition EqualityPredictorComponent_new ::
    "size_t \<Rightarrow> size_t \<Rightarrow> size_t \<Rightarrow> size_t \<Rightarrow> error + EqualityPredictorComponent" where
  "EqualityPredictorComponent_new sz g i t =
     (case PathTracker_new g i t of
        Inl e \<Rightarrow> Inl e
      | Inr p \<Rightarrow> Inr \<lparr>path = p, components = replicate (unat sz) (EqualityPredictorEntry_new 0)\<rparr>)"

text \<open>A reference to an entry of a component's table is the entry's position in it.\<close>

definition getEntryConflict :: "PC \<Rightarrow> EqualityPredictorComponent \<Rightarrow> error + nat" where
  "getEntryConflict pc c =
     (case getIndex pc (path c) of
        Inl e \<Rightarrow> Inl e
      | Inr index \<Rightarrow>
          if unat index < length (components c) then Inr (unat index)
          else Inl AssertionFailure)"

definition getEntry :: "PC \<Rightarrow> EqualityPredictorComponent \<Rightarrow> error + nat option" where
  "getEntry pc c =
     (case getTag pc (path c) of
        Inl e \<Rightarrow> Inl e
      | Inr tg \<Rightarrow>
          (case getEntryConflict pc c of
             Inl e \<Rightarrow> Inl e
           | Inr slot \<Rightarrow>
               if tag (components c ! slot) = ucast tg then Inr (Some slot) else Inr None))"

definition allocate ::
    "PC \<Rightarrow> bool \<Rightarrow> EqualityPredictorComponent \<Rightarrow> error + EqualityPredictorComponent" where
  "allocate pc outcome c =
     (case getIndex pc (path c) of
        Inl e \<Rightarrow> Inl e
      | Inr index \<Rightarrow>
          (case getTag pc (path c) of
             Inl e \<Rightarrow> Inl e
           | Inr tg \<Rightarrow>
               if unat index < length (components c)
               then Inr (c\<lparr>components := (components c)
                           [unat index := update outcome (EqualityPredictorEntry_new (ucast tg))]\<rparr>)
               else Inl AssertionFailure))"

definition onCommit ::
    "PC \<Rightarrow> bool \<Rightarrow> EqualityPredictorComponent \<Rightarrow> error + EqualityPredictorComponent" where
  "onCommit pc outcome c =
     (case getIndex pc (path c) of
        Inl e \<Rightarrow> Inl e
      | Inr index \<Rightarrow>
          (case getTag pc (path c) of
             Inl e \<Rightarrow> Inl e
           | Inr tg \<Rightarrow>
               if unat index < length (components c)
               then (if tag (components c ! unat index) = ucast tg
                     then Inr (c\<lparr>components := (components c)
                                 [unat index := update outcome (components c ! unat index)]\<rparr>)
                     else Inr c)
               else Inl AssertionFailure))"

definition component_addBranch ::
    "bool \<Rightarrow> EqualityPredictorComponent \<Rightarrow> error + EqualityPredictorComponent" where
  "component_addBranch outcome c =
     (case addBranch outcome (path c) of
        Inl e \<Rightarrow> Inl e
      | Inr p \<Rightarrow> Inr (c\<lparr>path := p\<rparr>))"

definition component_revertBranches ::
    "size_t \<Rightarrow> EqualityPredictorComponent \<Rightarrow> error + EqualityPredictorComponent" where
  "component_revertBranches num c =
     (case revertBranches num (path c) of
        Inl e \<Rightarrow> Inl e
      | Inr p \<Rightarrow> Inr (c\<lparr>path := p\<rparr>))"

subsection \<open>EqualityPredictor\<close>

record ComponentConfig =
  cfg_size :: size_t
  cfg_ghist_bits :: size_t
  cfg_index_bits :: size_t
  cfg_tag_bits :: size_t

text \<open>The field \<^verbatim>\<open>components\<close> of the predictor is \<open>ep_components\<close> here, the name
  \<open>components\<close> being the table of a component. The deque \<^verbatim>\<open>branch_queue\<close> is a list
  with its front at the head.\<close>

record EqualityPredictor =
  ep_components :: "EqualityPredictorComponent list"
  branch_queue :: "InstSeqNum list"

text \<open>The constructor's loop: the first rejected configuration throws.\<close>

fun emplace_components ::
    "ComponentConfig list \<Rightarrow> error + EqualityPredictorComponent list" where
  "emplace_components [] = Inr []"
| "emplace_components (config # configs) =
     (case EqualityPredictorComponent_new (cfg_size config) (cfg_ghist_bits config)
             (cfg_index_bits config) (cfg_tag_bits config) of
        Inl e \<Rightarrow> Inl e
      | Inr c \<Rightarrow>
          (case emplace_components configs of
             Inl e \<Rightarrow> Inl e
           | Inr cs \<Rightarrow> Inr (c # cs)))"

definition EqualityPredictor_new :: "ComponentConfig list \<Rightarrow> error + EqualityPredictor" where
  "EqualityPredictor_new configs =
     (case emplace_components configs of
        Inl e \<Rightarrow> Inl e
      | Inr cs \<Rightarrow> Inr \<lparr>ep_components = cs, branch_queue = []\<rparr>)"

fun addBranch_all ::
    "bool \<Rightarrow> EqualityPredictorComponent list \<Rightarrow> error + EqualityPredictorComponent list" where
  "addBranch_all outcome [] = Inr []"
| "addBranch_all outcome (c # cs) =
     (case component_addBranch outcome c of
        Inl e \<Rightarrow> Inl e
      | Inr c' \<Rightarrow>
          (case addBranch_all outcome cs of
             Inl e \<Rightarrow> Inl e
           | Inr cs' \<Rightarrow> Inr (c' # cs')))"

definition updateOnBranch ::
    "InstSeqNum \<Rightarrow> bool \<Rightarrow> EqualityPredictor \<Rightarrow> error + EqualityPredictor" where
  "updateOnBranch seqNum outcome ep =
     (if length (branch_queue ep) \<ge> MAX_BRANCH_SPEC_DISTANCE then Inl RuntimeError
      else
        (case addBranch_all outcome (ep_components ep) of
           Inl e \<Rightarrow> Inl e
         | Inr cs \<Rightarrow> Inr (ep\<lparr>ep_components := cs,
                                branch_queue := branch_queue ep @ [seqNum]\<rparr>)))"

text \<open>A reference to an entry of the predictor: the component and the position in its
  table. \<^verbatim>\<open>PredictionData\<close> holds such references, read through at the time of use.\<close>

type_synonym EntryRef = "nat \<times> nat"

definition entry_at :: "EqualityPredictor \<Rightarrow> EntryRef \<Rightarrow> EqualityPredictorEntry" where
  "entry_at ep r = components (ep_components ep ! fst r) ! snd r"

definition entry_set ::
    "EqualityPredictor \<Rightarrow> EntryRef \<Rightarrow> EqualityPredictorEntry \<Rightarrow> EqualityPredictor" where
  "entry_set ep r e =
     ep\<lparr>ep_components := (ep_components ep)
          [fst r := (ep_components ep ! fst r)
             \<lparr>components := (components (ep_components ep ! fst r))[snd r := e]\<rparr>]\<rparr>"

record PredictionData =
  primary :: "EntryRef option"
  primary_index :: nat
  alt :: "EntryRef option"
  alt_index :: nat

text \<open>The loop of \<^verbatim>\<open>getPredictingEntries\<close> over the component indices still to visit.\<close>

fun getPredictingEntries_loop ::
    "PC \<Rightarrow> EqualityPredictor \<Rightarrow> nat list \<Rightarrow> PredictionData \<Rightarrow> error + PredictionData" where
  "getPredictingEntries_loop pc ep [] result = Inr result"
| "getPredictingEntries_loop pc ep (i # rest) result =
     (case getEntry pc (ep_components ep ! i) of
        Inl e \<Rightarrow> Inl e
      | Inr None \<Rightarrow> getPredictingEntries_loop pc ep rest result
      | Inr (Some slot) \<Rightarrow>
          if (case primary result of
                None \<Rightarrow> True
              | Some r \<Rightarrow> confidence_value (getConfidence (entry_at ep (i, slot)))
                           \<ge> confidence_value (getConfidence (entry_at ep r)))
          then getPredictingEntries_loop pc ep rest
                 (result\<lparr>alt := primary result, alt_index := primary_index result,
                          primary := Some (i, slot), primary_index := i\<rparr>)
          else getPredictingEntries_loop pc ep rest result)"

definition getPredictingEntries :: "PC \<Rightarrow> EqualityPredictor \<Rightarrow> error + PredictionData" where
  "getPredictingEntries pc ep =
     getPredictingEntries_loop pc ep [0..<length (ep_components ep)]
       \<lparr>primary = None, primary_index = 0, alt = None, alt_index = 0\<rparr>"

text \<open>\<^verbatim>\<open>predict\<close> is a non-const member function; the model returns the predictor
  state next to the prediction.\<close>

definition predict ::
    "PC \<Rightarrow> EqualityPredictor \<Rightarrow> error + ((Confidence \<times> bool) \<times> EqualityPredictor)" where
  "predict pc ep =
     (case getPredictingEntries pc ep of
        Inl e \<Rightarrow> Inl e
      | Inr pd \<Rightarrow>
          (case primary pd of
             Some r \<Rightarrow> Inr ((getConfidence (entry_at ep r), getDirection (entry_at ep r)), ep)
           | None \<Rightarrow> Inr ((low, False), ep)))"

definition predictingEntry :: "PC \<Rightarrow> EqualityPredictor \<Rightarrow> error + EntryRef option" where
  "predictingEntry pc ep =
     (case getPredictingEntries pc ep of
        Inl e \<Rightarrow> Inl e
      | Inr pd \<Rightarrow> Inr (primary pd))"

text \<open>
  The update loop of \<^verbatim>\<open>onValueCommit\<close>: the state carried is the predictor and
  \<^verbatim>\<open>longest_hitting_index\<close>. The assertion on the primary stands before the update rule;
  \<^verbatim>\<open>pd.alt.value()\<close> and \<^verbatim>\<open>pd.primary.value()\<close> throw on an empty optional.
\<close>

fun onValueCommit_loop ::
    "PC \<Rightarrow> bool \<Rightarrow> PredictionData \<Rightarrow> nat list \<Rightarrow> EqualityPredictor \<Rightarrow> nat
       \<Rightarrow> error + (EqualityPredictor \<times> nat)" where
  "onValueCommit_loop pc wasEqual pd [] ep longest_hitting_index =
     Inr (ep, longest_hitting_index)"
| "onValueCommit_loop pc wasEqual pd (i # rest) ep longest_hitting_index =
     (case getEntry pc (ep_components ep ! i) of
        Inl e \<Rightarrow> Inl e
      | Inr None \<Rightarrow> onValueCommit_loop pc wasEqual pd rest ep longest_hitting_index
      | Inr (Some slot) \<Rightarrow>
          (let is_alt = (alt pd \<noteq> None \<and> i = alt_index pd);
               is_primary = (i = primary_index pd);
               is_longer_than_primary = (i > primary_index pd);
               entry = entry_at ep (i, slot)
           in
             if is_longer_than_primary then
               onValueCommit_loop pc wasEqual pd rest
                 (entry_set ep (i, slot) (update wasEqual entry)) i
             else if is_primary then
               (if \<not> (i = 0 \<or> alt pd \<noteq> None) then Inl AssertionFailure
                else if i = 0 \<or> getConfidence entry \<noteq> high
                       \<or> (case alt pd of
                             None \<Rightarrow> False
                           | Some a \<Rightarrow> confidence_value (getConfidence (entry_at ep a))
                                        < confidence_value high)
                       \<or> (case alt pd of
                             None \<Rightarrow> False
                           | Some a \<Rightarrow> getDirection (entry_at ep a) \<noteq> wasEqual)
                then
                  onValueCommit_loop pc wasEqual pd rest
                    (entry_set ep (i, slot) (update wasEqual entry)) i
                else if i > 0 \<and> getConfidence entry = high then
                  (case alt pd of
                     None \<Rightarrow> Inl BadOptionalAccess
                   | Some a \<Rightarrow>
                       if getConfidence (entry_at ep a) = high
                            \<and> getDirection (entry_at ep a) = wasEqual
                       then onValueCommit_loop pc wasEqual pd rest
                              (entry_set ep (i, slot) (decay entry)) i
                       else onValueCommit_loop pc wasEqual pd rest ep i)
                else onValueCommit_loop pc wasEqual pd rest ep i)
             else if is_alt then
               (case primary pd of
                  None \<Rightarrow> Inl BadOptionalAccess
                | Some r \<Rightarrow>
                    if getConfidence (entry_at ep r) \<noteq> high
                    then onValueCommit_loop pc wasEqual pd rest
                           (entry_set ep (i, slot) (update wasEqual entry)) i
                    else onValueCommit_loop pc wasEqual pd rest ep i)
             else onValueCommit_loop pc wasEqual pd rest ep i))"

text \<open>The first allocation loop: the first visited slot whose confidence is not high is
  allocated and the loop left with \<open>r\<close> its component; \<open>r\<close> stays at the number of
  components when no slot is taken.\<close>

fun allocate_loop ::
    "PC \<Rightarrow> bool \<Rightarrow> nat list \<Rightarrow> EqualityPredictor \<Rightarrow> error + (EqualityPredictor \<times> nat)" where
  "allocate_loop pc wasEqual [] ep = Inr (ep, length (ep_components ep))"
| "allocate_loop pc wasEqual (i # rest) ep =
     (case getEntryConflict pc (ep_components ep ! i) of
        Inl e \<Rightarrow> Inl e
      | Inr slot \<Rightarrow>
          if getConfidence (entry_at ep (i, slot)) \<noteq> high then
            (case allocate pc wasEqual (ep_components ep ! i) of
               Inl e \<Rightarrow> Inl e
             | Inr c \<Rightarrow> Inr (ep\<lparr>ep_components := (ep_components ep)[i := c]\<rparr>, i))
          else allocate_loop pc wasEqual rest ep)"

text \<open>The second allocation loop. \<^verbatim>\<open>rand()\<close> is an input of the model: \<open>rnd k\<close> is the
  value the \<open>k\<close>-th call of \<^verbatim>\<open>rand()\<close> within this \<^verbatim>\<open>onValueCommit\<close> returns.\<close>

fun decay_loop ::
    "PC \<Rightarrow> (nat \<Rightarrow> nat) \<Rightarrow> nat \<Rightarrow> nat list \<Rightarrow> EqualityPredictor \<Rightarrow> error + EqualityPredictor" where
  "decay_loop pc rnd k [] ep = Inr ep"
| "decay_loop pc rnd k (i # rest) ep =
     (case getEntryConflict pc (ep_components ep ! i) of
        Inl e \<Rightarrow> Inl e
      | Inr slot \<Rightarrow>
          if getConfidence (entry_at ep (i, slot)) \<noteq> high then Inl AssertionFailure
          else if rnd k mod 4 = 0
          then decay_loop pc rnd (Suc k) rest (entry_set ep (i, slot) (decay (entry_at ep (i, slot))))
          else decay_loop pc rnd (Suc k) rest ep)"

definition onValueCommit ::
    "PC \<Rightarrow> bool \<Rightarrow> (nat \<Rightarrow> nat) \<Rightarrow> EqualityPredictor \<Rightarrow> error + EqualityPredictor" where
  "onValueCommit pc wasEqual rnd ep =
     (case getPredictingEntries pc ep of
        Inl e \<Rightarrow> Inl e
      | Inr pd \<Rightarrow>
          (let prediction = (case primary pd of
                               None \<Rightarrow> False
                             | Some r \<Rightarrow> getDirection (entry_at ep r))
           in
             case onValueCommit_loop pc wasEqual pd [0..<length (ep_components ep)] ep 0 of
               Inl e \<Rightarrow> Inl e
             | Inr (ep1, longest_hitting_index) \<Rightarrow>
                 if prediction \<noteq> wasEqual then
                   (let s = longest_hitting_index + 1
                    in case allocate_loop pc wasEqual [s..<length (ep_components ep1)] ep1 of
                         Inl e \<Rightarrow> Inl e
                       | Inr (ep2, r) \<Rightarrow> decay_loop pc rnd 0 [s..<r] ep2)
                 else Inr ep1))"

text \<open>\<^verbatim>\<open>branch_queue.front()\<close> of an empty deque is undefined.\<close>

definition onBranchCommit :: "InstSeqNum \<Rightarrow> EqualityPredictor \<Rightarrow> error + EqualityPredictor" where
  "onBranchCommit seqNum ep =
     (case branch_queue ep of
        [] \<Rightarrow> Inl UndefinedBehaviour
      | front # rest \<Rightarrow>
          if front = seqNum then Inr (ep\<lparr>branch_queue := rest\<rparr>)
          else Inl AssertionFailure)"

text \<open>The \<^verbatim>\<open>while\<close> loop of \<^verbatim>\<open>squash\<close>: the queue and \<^verbatim>\<open>num_to_revert\<close>.\<close>

function squash_loop :: "InstSeqNum \<Rightarrow> InstSeqNum list \<Rightarrow> size_t \<Rightarrow> InstSeqNum list \<times> size_t" where
  "squash_loop seqNum q num_to_revert =
     (if q \<noteq> [] \<and> last q \<ge> seqNum
      then squash_loop seqNum (butlast q) (num_to_revert + 1)
      else (q, num_to_revert))"
  by pat_completeness auto
termination
  by (relation "measure (\<lambda>(seqNum, q, num_to_revert). length q)") auto

declare squash_loop.simps [simp del]

fun revertBranches_all ::
    "size_t \<Rightarrow> EqualityPredictorComponent list \<Rightarrow> error + EqualityPredictorComponent list" where
  "revertBranches_all num [] = Inr []"
| "revertBranches_all num (c # cs) =
     (case component_revertBranches num c of
        Inl e \<Rightarrow> Inl e
      | Inr c' \<Rightarrow>
          (case revertBranches_all num cs of
             Inl e \<Rightarrow> Inl e
           | Inr cs' \<Rightarrow> Inr (c' # cs')))"

definition squash :: "InstSeqNum \<Rightarrow> EqualityPredictor \<Rightarrow> error + EqualityPredictor" where
  "squash seqNum ep =
     (case squash_loop seqNum (branch_queue ep) 0 of
        (q, num_to_revert) \<Rightarrow>
          (case revertBranches_all num_to_revert (ep_components ep) of
             Inl e \<Rightarrow> Inl e
           | Inr cs \<Rightarrow> Inr (ep\<lparr>ep_components := cs, branch_queue := q\<rparr>)))"

subsection \<open>LastCommittedValueTable and ValuePredictor\<close>

type_synonym LastCommittedValueTable = "PC \<rightharpoonup> Value"

definition hasValue :: "LastCommittedValueTable \<Rightarrow> PC \<Rightarrow> bool" where
  "hasValue table pc = (table pc \<noteq> None)"

definition lookup :: "LastCommittedValueTable \<Rightarrow> PC \<Rightarrow> Value" where
  "lookup table pc = (case table pc of Some v \<Rightarrow> v | None \<Rightarrow> 0)"

definition table_update :: "LastCommittedValueTable \<Rightarrow> PC \<Rightarrow> Value \<Rightarrow> LastCommittedValueTable" where
  "table_update table pc val = table(pc \<mapsto> val)"

record ValuePredictor =
  lcvt :: LastCommittedValueTable
  ep :: EqualityPredictor

definition ValuePredictor_configs :: "ComponentConfig list" where
  "ValuePredictor_configs =
     [\<lparr>cfg_size = 1024, cfg_ghist_bits = 8, cfg_index_bits = 10, cfg_tag_bits = 0\<rparr>,
      \<lparr>cfg_size = 4096, cfg_ghist_bits = 16, cfg_index_bits = 12, cfg_tag_bits = 12\<rparr>,
      \<lparr>cfg_size = 8192, cfg_ghist_bits = 32, cfg_index_bits = 13, cfg_tag_bits = 13\<rparr>]"

definition ValuePredictor_new :: "error + ValuePredictor" where
  "ValuePredictor_new =
     (case EqualityPredictor_new ValuePredictor_configs of
        Inl e \<Rightarrow> Inl e
      | Inr p \<Rightarrow> Inr \<lparr>lcvt = Map.empty, ep = p\<rparr>)"

definition vp_predict ::
    "PC \<Rightarrow> ValuePredictor \<Rightarrow> error + ((Confidence \<times> Value) \<times> ValuePredictor)" where
  "vp_predict pc vp =
     (case predict pc (ep vp) of
        Inl e \<Rightarrow> Inl e
      | Inr (pred, ep') \<Rightarrow>
          if \<not> hasValue (lcvt vp) pc \<or> \<not> snd pred then Inr ((low, 0), vp\<lparr>ep := ep'\<rparr>)
          else Inr ((fst pred, lookup (lcvt vp) pc), vp\<lparr>ep := ep'\<rparr>))"

definition vp_updateOnBranch ::
    "InstSeqNum \<Rightarrow> bool \<Rightarrow> ValuePredictor \<Rightarrow> error + ValuePredictor" where
  "vp_updateOnBranch seqNum taken vp =
     (case updateOnBranch seqNum taken (ep vp) of
        Inl e \<Rightarrow> Inl e
      | Inr ep' \<Rightarrow> Inr (vp\<lparr>ep := ep'\<rparr>))"

definition vp_onValueCommit ::
    "PC \<Rightarrow> Value \<Rightarrow> (nat \<Rightarrow> nat) \<Rightarrow> ValuePredictor \<Rightarrow> error + ValuePredictor" where
  "vp_onValueCommit pc val rnd vp =
     (case onValueCommit pc (val = lookup (lcvt vp) pc) rnd (ep vp) of
        Inl e \<Rightarrow> Inl e
      | Inr ep' \<Rightarrow> Inr (vp\<lparr>ep := ep', lcvt := table_update (lcvt vp) pc val\<rparr>))"

definition vp_onBranchCommit :: "InstSeqNum \<Rightarrow> ValuePredictor \<Rightarrow> error + ValuePredictor" where
  "vp_onBranchCommit seqNum vp =
     (case onBranchCommit seqNum (ep vp) of
        Inl e \<Rightarrow> Inl e
      | Inr ep' \<Rightarrow> Inr (vp\<lparr>ep := ep'\<rparr>))"

definition vp_squash :: "InstSeqNum \<Rightarrow> ValuePredictor \<Rightarrow> error + ValuePredictor" where
  "vp_squash seqNum vp =
     (case squash seqNum (ep vp) of
        Inl e \<Rightarrow> Inl e
      | Inr ep' \<Rightarrow> Inr (vp\<lparr>ep := ep'\<rparr>))"

section \<open>Notions used in the statements\<close>

text \<open>The component the constructor builds from an accepted configuration.\<close>

definition component_of_config :: "ComponentConfig \<Rightarrow> EqualityPredictorComponent" where
  "component_of_config c =
     \<lparr>path = \<lparr>ghist_bits = cfg_ghist_bits c, index_size = cfg_index_bits c,
               tag_size = cfg_tag_bits c, folded_path = 0, outcome_buffer = 0\<rparr>,
      components = replicate (unat (cfg_size c)) (EqualityPredictorEntry_new 0)\<rparr>"

text \<open>
  Tag hits as the selection rule speaks of them: \<open>hit_confidence pc st i\<close> is the confidence
  of the entry of component \<open>i\<close> that tag-hits \<open>pc\<close>, if there is one; a hit is leading
  when its confidence is at least that of every earlier hit. \<open>selected pc st n pd\<close> says
  that \<open>pd\<close> is the selection among the first \<open>n\<close> components: the primary is the last
  leading hit, the alternate the leading hit before it.
\<close>

definition hit_confidence :: "PC \<Rightarrow> EqualityPredictor \<Rightarrow> nat \<Rightarrow> nat option" where
  "hit_confidence pc st i =
     (case getEntry pc (ep_components st ! i) of
        Inr (Some slot) \<Rightarrow> Some (confidence_value (getConfidence (entry_at st (i, slot))))
      | _ \<Rightarrow> None)"

definition leading_hit :: "PC \<Rightarrow> EqualityPredictor \<Rightarrow> nat \<Rightarrow> bool" where
  "leading_hit pc st i \<longleftrightarrow>
     (case hit_confidence pc st i of
        None \<Rightarrow> False
      | Some c \<Rightarrow> \<forall>j<i. case hit_confidence pc st j of None \<Rightarrow> True | Some c' \<Rightarrow> c' \<le> c)"

definition selected :: "PC \<Rightarrow> EqualityPredictor \<Rightarrow> nat \<Rightarrow> PredictionData \<Rightarrow> bool" where
  "selected pc st n pd \<longleftrightarrow>
     (case primary pd of
        None \<Rightarrow> alt pd = None \<and> (\<forall>i<n. hit_confidence pc st i = None)
      | Some r \<Rightarrow>
          fst r = primary_index pd \<and> primary_index pd < n
          \<and> getEntry pc (ep_components st ! primary_index pd) = Inr (Some (snd r))
          \<and> leading_hit pc st (primary_index pd)
          \<and> (\<forall>k<n. primary_index pd < k \<longrightarrow> \<not> leading_hit pc st k)
          \<and> (\<forall>j<n. case hit_confidence pc st j of
                      None \<Rightarrow> True
                    | Some c \<Rightarrow> c \<le> confidence_value (getConfidence (entry_at st r)))
          \<and> (case alt pd of
                None \<Rightarrow> (\<forall>q<primary_index pd. hit_confidence pc st q = None)
              | Some a \<Rightarrow>
                  fst a = alt_index pd \<and> alt_index pd < primary_index pd
                  \<and> getEntry pc (ep_components st ! alt_index pd) = Inr (Some (snd a))
                  \<and> leading_hit pc st (alt_index pd)
                  \<and> (\<forall>k<primary_index pd. alt_index pd < k \<longrightarrow> \<not> leading_hit pc st k)))"

text \<open>A small predictor state: a tagless base component and one tagged component, both
  holding a high-confidence entry that tag-hits \<open>pc = 2\<close>.\<close>

definition two_hits :: EqualityPredictor where
  "two_hits = \<lparr>ep_components =
            [\<lparr>path = \<lparr>ghist_bits = 0, index_size = 1, tag_size = 0, folded_path = 0,
                      outcome_buffer = 0\<rparr>,
              components = [\<lparr>tag = 0, taken_counter = 2, not_taken_counter = 0\<rparr>,
                            \<lparr>tag = 0, taken_counter = 0, not_taken_counter = 0\<rparr>]\<rparr>,
             \<lparr>path = \<lparr>ghist_bits = 0, index_size = 1, tag_size = 1, folded_path = 0,
                      outcome_buffer = 0\<rparr>,
              components = [\<lparr>tag = 1, taken_counter = 3, not_taken_counter = 0\<rparr>,
                            \<lparr>tag = 0, taken_counter = 0, not_taken_counter = 0\<rparr>]\<rparr>],
          branch_queue = []\<rparr>"


definition two_hits_vp :: ValuePredictor where
  "two_hits_vp = \<lparr>lcvt = [2 \<mapsto> 7], ep = two_hits\<rparr>"

text \<open>
  The two folds of the history register, as \<^verbatim>\<open>addBranch\<close> and the loop body of
  \<^verbatim>\<open>revertBranches\<close> compute them for a width \<open>w\<close> and a fold position \<open>pos\<close>, and the
  two numbers themselves. \<open>tracker_ok\<close> is the invariant of the trackers that
  \<^verbatim>\<open>addBranch\<close> reaches from construction: \<open>folded_path < 2 ^ W\<close>, and nothing recorded
  where \<^verbatim>\<open>addBranch\<close> returns at once or is undefined.
\<close>

definition fold_in :: "nat \<Rightarrow> nat \<Rightarrow> 32 word \<Rightarrow> bool \<Rightarrow> bool \<Rightarrow> 32 word" where
  "fold_in w pos fp old_outcome outcome =
     (((push_bit 1 fp AND (push_bit w 1 - 1)) OR (drop_bit (w - 1) fp AND 1))
        XOR push_bit pos (of_bool old_outcome)) XOR of_bool outcome"

definition fold_out :: "nat \<Rightarrow> nat \<Rightarrow> 32 word \<Rightarrow> bool \<Rightarrow> bool \<Rightarrow> 32 word" where
  "fold_out w pos fp outcome old_outcome =
     drop_bit 1 ((fp XOR of_bool outcome) XOR push_bit pos (of_bool old_outcome))
       OR push_bit (w - 1) (((fp XOR of_bool outcome) XOR push_bit pos (of_bool old_outcome)) AND 1)"

definition width :: "PathTracker \<Rightarrow> nat" where
  "width p = unat (index_size p + tag_size p)"

definition fold_position :: "PathTracker \<Rightarrow> nat" where
  "fold_position p = unat (ghist_bits p) mod width p"

definition tracker_ok :: "PathTracker \<Rightarrow> bool" where
  "tracker_ok p \<longleftrightarrow>
     (ghist_bits p = 0 \<or> \<not> fold_defined p \<longrightarrow> folded_path p = 0 \<and> outcome_buffer p = 0)
     \<and> (fold_defined p \<longrightarrow> folded_path p < 2 ^ width p)"

definition same_config :: "PathTracker \<Rightarrow> PathTracker \<Rightarrow> bool" where
  "same_config p q \<longleftrightarrow>
     ghist_bits p = ghist_bits q \<and> index_size p = index_size q \<and> tag_size p = tag_size q"

text \<open>The tracker of the path folding test, \<^verbatim>\<open>PathTracker(5, 2, 3)\<close>, in a given state.\<close>

definition tracker_5_2_3 :: "32 word \<Rightarrow> 200 word \<Rightarrow> PathTracker" where
  "tracker_5_2_3 fp buf =
     \<lparr>ghist_bits = 5, index_size = 2, tag_size = 3, folded_path = fp, outcome_buffer = buf\<rparr>"

text \<open>Two tagged components of two slots each, as the constructor builds them, with the
  entry \<open>e\<close> in the slot of the second component that \<open>pc = 2\<close> maps to; and the state
  \<open>two_hits\<close> after its primary has decayed.\<close>

definition tagged_pair :: "EqualityPredictorEntry \<Rightarrow> EqualityPredictor" where
  "tagged_pair e =
     \<lparr>ep_components =
        [\<lparr>path = \<lparr>ghist_bits = 0, index_size = 1, tag_size = 1, folded_path = 0,
                  outcome_buffer = 0\<rparr>,
          components = [\<lparr>tag = 0, taken_counter = 0, not_taken_counter = 0\<rparr>,
                        \<lparr>tag = 0, taken_counter = 0, not_taken_counter = 0\<rparr>]\<rparr>,
         \<lparr>path = \<lparr>ghist_bits = 0, index_size = 1, tag_size = 1, folded_path = 0,
                  outcome_buffer = 0\<rparr>,
          components = [e, \<lparr>tag = 0, taken_counter = 0, not_taken_counter = 0\<rparr>]\<rparr>],
      branch_queue = []\<rparr>"

definition two_hits_decayed :: EqualityPredictor where
  "two_hits_decayed = \<lparr>ep_components =
            [\<lparr>path = \<lparr>ghist_bits = 0, index_size = 1, tag_size = 0, folded_path = 0,
                      outcome_buffer = 0\<rparr>,
              components = [\<lparr>tag = 0, taken_counter = 2, not_taken_counter = 0\<rparr>,
                            \<lparr>tag = 0, taken_counter = 0, not_taken_counter = 0\<rparr>]\<rparr>,
             \<lparr>path = \<lparr>ghist_bits = 0, index_size = 1, tag_size = 1, folded_path = 0,
                      outcome_buffer = 0\<rparr>,
              components = [\<lparr>tag = 1, taken_counter = 2, not_taken_counter = 0\<rparr>,
                            \<lparr>tag = 0, taken_counter = 0, not_taken_counter = 0\<rparr>]\<rparr>],
          branch_queue = []\<rparr>"

text \<open>
  Runs of the predictor. An operation is one call of the interface; \<open>run\<close> applies a
  sequence of them and stops at the first failure. Next to the predictor it keeps the
  outcomes of the branches that were announced and not squashed, the most recent first:
  \<^verbatim>\<open>updateOnBranch\<close> adds one, \<^verbatim>\<open>squash\<close> drops as many as it pops from the queue.
  \<open>replayed c outcomes\<close> is the tracker obtained by replaying \<open>outcomes\<close>, oldest first,
  into a fresh tracker of configuration \<open>c\<close>.
\<close>

datatype operation =
    UpdateOnBranch InstSeqNum bool
  | OnBranchCommit InstSeqNum
  | OnValueCommit PC bool "nat \<Rightarrow> nat"
  | Squash InstSeqNum

fun apply_operation :: "operation \<Rightarrow> EqualityPredictor \<Rightarrow> error + EqualityPredictor" where
  "apply_operation (UpdateOnBranch seqNum outcome) st = updateOnBranch seqNum outcome st"
| "apply_operation (OnBranchCommit seqNum) st = onBranchCommit seqNum st"
| "apply_operation (OnValueCommit pc wasEqual rnd) st = onValueCommit pc wasEqual rnd st"
| "apply_operation (Squash seqNum) st = squash seqNum st"

fun outcomes_after :: "operation \<Rightarrow> EqualityPredictor \<Rightarrow> bool list \<Rightarrow> bool list" where
  "outcomes_after (UpdateOnBranch seqNum outcome) st h = outcome # h"
| "outcomes_after (Squash seqNum) st h =
     drop (unat (snd (squash_loop seqNum (branch_queue st) 0))) h"
| "outcomes_after (OnBranchCommit seqNum) st h = h"
| "outcomes_after (OnValueCommit pc wasEqual rnd) st h = h"

fun run ::
    "operation list \<Rightarrow> EqualityPredictor \<Rightarrow> bool list \<Rightarrow> error + (EqualityPredictor \<times> bool list)" where
  "run [] st h = Inr (st, h)"
| "run (operation # operations) st h =
     (case apply_operation operation st of
        Inl e \<Rightarrow> Inl e
      | Inr st' \<Rightarrow> run operations st' (outcomes_after operation st h))"

definition replayed :: "ComponentConfig \<Rightarrow> bool list \<Rightarrow> error + PathTracker" where
  "replayed c outcomes =
     (case PathTracker_new (cfg_ghist_bits c) (cfg_index_bits c) (cfg_tag_bits c) of
        Inl e \<Rightarrow> Inl e
      | Inr fresh \<Rightarrow> addBranches outcomes fresh)"

text \<open>
  \<open>agree d p q\<close>: the trackers have the same configuration and \<^verbatim>\<open>folded_path\<close>, and
  their outcome buffers agree below bit \<open>200 - d\<close>. \<open>tracks configs d st h\<close>: every
  component's tracker agrees in this sense with the replay of \<open>h\<close>, and the queue leaves
  room for \<open>d\<close>. \<open>history_fits\<close>: every history is short enough for the 200-bit buffer
  to hold, beyond the \<^verbatim>\<open>ghist_bits\<close> outcomes folded, the 64 that a squash may revert.
\<close>

definition agree :: "nat \<Rightarrow> PathTracker \<Rightarrow> PathTracker \<Rightarrow> bool" where
  "agree d p q \<longleftrightarrow>
     same_config p q \<and> folded_path p = folded_path q
     \<and> (\<forall>n. n + d < 200 \<longrightarrow> bit (outcome_buffer p) n = bit (outcome_buffer q) n)
     \<and> (ghist_bits p = 0 \<longrightarrow> outcome_buffer p = outcome_buffer q)"

definition tracks :: "ComponentConfig list \<Rightarrow> nat \<Rightarrow> EqualityPredictor \<Rightarrow> bool list \<Rightarrow> bool" where
  "tracks configs d st h \<longleftrightarrow>
     length (ep_components st) = length configs
     \<and> length (branch_queue st) + d \<le> MAX_BRANCH_SPEC_DISTANCE
     \<and> length (branch_queue st) \<le> length h
     \<and> (\<forall>i<length configs.
          case replayed (configs ! i) (rev h) of
            Inl e \<Rightarrow> False
          | Inr q \<Rightarrow> agree d (path (ep_components st ! i)) q)"

definition history_fits :: "ComponentConfig list \<Rightarrow> bool" where
  "history_fits configs \<longleftrightarrow>
     (\<forall>c\<in>set configs. cfg_ghist_bits c = 0
        \<or> unat (cfg_ghist_bits c) + MAX_BRANCH_SPEC_DISTANCE \<le> MAX_HIST)"

text \<open>A predictor of one component with \<^verbatim>\<open>ghist_bits = 200\<close> and width 1, one with the
  tracker of the path folding test, and the run that commits one taken and 199 not-taken
  branches and leaves one more branch in flight.\<close>

definition tracker_200_1_0 :: "32 word \<Rightarrow> 200 word \<Rightarrow> PathTracker" where
  "tracker_200_1_0 fp buf =
     \<lparr>ghist_bits = 200, index_size = 1, tag_size = 0, folded_path = fp, outcome_buffer = buf\<rparr>"

definition predictor_200 :: "32 word \<Rightarrow> 200 word \<Rightarrow> InstSeqNum list \<Rightarrow> EqualityPredictor" where
  "predictor_200 fp buf q =
     \<lparr>ep_components =
        [\<lparr>path = tracker_200_1_0 fp buf,
          components = replicate 2 (EqualityPredictorEntry_new 0)\<rparr>],
      branch_queue = q\<rparr>"

definition predictor_5 :: "32 word \<Rightarrow> 200 word \<Rightarrow> InstSeqNum list \<Rightarrow> EqualityPredictor" where
  "predictor_5 fp buf q =
     \<lparr>ep_components =
        [\<lparr>path = tracker_5_2_3 fp buf,
          components = replicate 4 (EqualityPredictorEntry_new 0)\<rparr>],
      branch_queue = q\<rparr>"

definition squashed_late :: "operation list" where
  "squashed_late =
     [UpdateOnBranch 0 True, OnBranchCommit 0]
     @ concat (replicate 199 [UpdateOnBranch 0 False, OnBranchCommit 0])
     @ [UpdateOnBranch 1 False]"

text \<open>
  The states in which every lookup is defined, whatever the \<open>pc\<close>. \<open>lookup_defined c\<close>: both
  widths of the component's tracker are below 32, so that the shifts of \<^verbatim>\<open>getIndex\<close> and
  \<^verbatim>\<open>getTag\<close> are defined, and the table has at least \<open>2 ^ index_size\<close> entries, so that
  the assertion of \<^verbatim>\<open>getEntryConflict\<close> holds. \<open>base_always_hits st\<close>: component 0 has
  \<^verbatim>\<open>tag_size = 0\<close> and only entries of tag 0, as the constructor leaves them, so that
  every lookup in it is a tag hit. \<open>conflict_high pc c\<close>: the entry of \<open>c\<close> that \<open>pc\<close> maps
  to, hit or not, has high confidence. \<open>well_configured configs\<close>: the first configuration
  has \<^verbatim>\<open>tag_bits = 0\<close>, and every configuration has \<open>index_bits + tag_bits \<le> 31\<close> and a
  table that covers its index.
\<close>

definition lookup_defined :: "EqualityPredictorComponent \<Rightarrow> bool" where
  "lookup_defined c \<longleftrightarrow>
     unat (index_size (path c)) < 32 \<and> unat (tag_size (path c)) < 32
     \<and> 2 ^ unat (index_size (path c)) \<le> length (components c)"

definition lookups_defined :: "EqualityPredictor \<Rightarrow> bool" where
  "lookups_defined st \<longleftrightarrow> list_all lookup_defined (ep_components st)"

definition base_always_hits :: "EqualityPredictor \<Rightarrow> bool" where
  "base_always_hits st \<longleftrightarrow>
     (case ep_components st of
        [] \<Rightarrow> False
      | c # cs \<Rightarrow> tag_size (path c) = 0 \<and> list_all (\<lambda>e. tag e = 0) (components c))"

definition conflict_high :: "PC \<Rightarrow> EqualityPredictorComponent \<Rightarrow> bool" where
  "conflict_high pc c \<longleftrightarrow>
     (case getEntryConflict pc c of
        Inl e \<Rightarrow> False
      | Inr slot \<Rightarrow> getConfidence (components c ! slot) = high)"

definition well_configured :: "ComponentConfig list \<Rightarrow> bool" where
  "well_configured configs \<longleftrightarrow>
     (case configs of [] \<Rightarrow> False | base # rest \<Rightarrow> cfg_tag_bits base = 0)
     \<and> list_all (\<lambda>c. unat (cfg_index_bits c) + unat (cfg_tag_bits c) \<le> 31
                    \<and> 2 ^ unat (cfg_index_bits c) \<le> unat (cfg_size c)) configs"

section \<open>Properties of the dual counter\<close>

lemma unat_double_plus_one:
  assumes "(n :: size_t) \<le> 7"
  shows "unat (2 * n + 1) = 2 * unat n + 1"
proof -
  from assms have "unat n \<le> 7" by (simp add: word_le_nat_alt)
  then have "2 * unat n + 1 < 2 ^ 64" by simp
  then show ?thesis by (simp add: unat_word_ariths)
qed

lemma unat_pred: "0 < unat (n :: size_t) \<Longrightarrow> unat (n - 1) = unat n - Suc 0"
  using unat_minus_one [of n] by (simp add: unat_gt_0)

lemma unat_succ: "unat (n :: size_t) < 7 \<Longrightarrow> unat (n + 1) = Suc (unat n)"
  by (simp add: unat_word_ariths)

lemma funpow_10: "(f ^^ 10) x = f (f (f (f (f (f (f (f (f (f x)))))))))"
  by (simp add: eval_nat_numeral)

lemma funpow_twice: "(f ^^ 2) x = f (f x)"
  by (simp add: eval_nat_numeral)

text \<open>
  Claim C4, as the code has it. \<^verbatim>\<open>decay\<close> keeps the direction exactly when the taken
  counter is not one above the not-taken counter: from \<open>(n0 + 1, n0)\<close> it reaches the tie
  \<open>(n0, n0)\<close>, whose direction is false. In particular the direction is kept whenever
  \<open>n1 < n0\<close> or \<open>n1 > n0 + 1\<close>.
\<close>

theorem decay_direction_iff:
  "getDirection (decay e) = getDirection e
     \<longleftrightarrow> unat (taken_counter e) \<noteq> unat (not_taken_counter e) + 1"
  unfolding getDirection_def decay_def Let_def
  by (auto simp: unat_sub word_le_nat_alt word_less_nat_alt)

text \<open>Claim C4 as stated fails at the counter pair \<open>(1, 0)\<close>: the counters differ, the
  direction is true before \<^verbatim>\<open>decay\<close> and false after it.\<close>

theorem decay_direction_counterexample:
  "taken_counter \<lparr>tag = 0, taken_counter = 1, not_taken_counter = 0\<rparr>
     \<noteq> not_taken_counter \<lparr>tag = 0, taken_counter = 1, not_taken_counter = 0\<rparr>
   \<and> getDirection \<lparr>tag = 0, taken_counter = 1, not_taken_counter = 0\<rparr>
   \<and> \<not> getDirection (decay \<lparr>tag = 0, taken_counter = 1, not_taken_counter = 0\<rparr>)"
  by (simp add: getDirection_def decay_def)

text \<open>
  Claim C5. For counters in \<open>[0, 7]\<close>, with \<open>hi\<close> the larger and \<open>lo\<close> the smaller
  counter, \<^verbatim>\<open>getConfidence\<close> is medium iff \<open>hi = 2 lo + 1\<close>, low iff \<open>hi \<le> 2 lo\<close>
  and high otherwise; the eight rows of the confidence table follow.
\<close>

theorem getConfidence_table:
  assumes "taken_counter e \<le> 7" and "not_taken_counter e \<le> 7"
  shows "(getConfidence e = medium \<longleftrightarrow>
            max (unat (taken_counter e)) (unat (not_taken_counter e))
              = 2 * min (unat (taken_counter e)) (unat (not_taken_counter e)) + 1)
       \<and> (getConfidence e = low \<longleftrightarrow>
            max (unat (taken_counter e)) (unat (not_taken_counter e))
              \<le> 2 * min (unat (taken_counter e)) (unat (not_taken_counter e)))
       \<and> (getConfidence e = high \<longleftrightarrow>
            max (unat (taken_counter e)) (unat (not_taken_counter e))
              > 2 * min (unat (taken_counter e)) (unat (not_taken_counter e)) + 1)
       \<and> getConfidence \<lparr>tag = t, taken_counter = 0, not_taken_counter = 0\<rparr> = low
       \<and> getConfidence \<lparr>tag = t, taken_counter = 1, not_taken_counter = 0\<rparr> = medium
       \<and> getConfidence \<lparr>tag = t, taken_counter = 2, not_taken_counter = 0\<rparr> = high
       \<and> getConfidence \<lparr>tag = t, taken_counter = 3, not_taken_counter = 2\<rparr> = low
       \<and> getConfidence \<lparr>tag = t, taken_counter = 5, not_taken_counter = 1\<rparr> = high
       \<and> getConfidence \<lparr>tag = t, taken_counter = 5, not_taken_counter = 2\<rparr> = medium
       \<and> getConfidence \<lparr>tag = t, taken_counter = 7, not_taken_counter = 3\<rparr> = medium
       \<and> getConfidence \<lparr>tag = t, taken_counter = 7, not_taken_counter = 0\<rparr> = high"
proof -
  have general:
    "(getConfidence e = medium \<longleftrightarrow>
        max (unat (taken_counter e)) (unat (not_taken_counter e))
          = 2 * min (unat (taken_counter e)) (unat (not_taken_counter e)) + 1)
     \<and> (getConfidence e = low \<longleftrightarrow>
        max (unat (taken_counter e)) (unat (not_taken_counter e))
          \<le> 2 * min (unat (taken_counter e)) (unat (not_taken_counter e)))
     \<and> (getConfidence e = high \<longleftrightarrow>
        max (unat (taken_counter e)) (unat (not_taken_counter e))
          > 2 * min (unat (taken_counter e)) (unat (not_taken_counter e)) + 1)"
    using assms
    apply (simp add: getConfidence_def Let_def word_less_nat_alt word_unat_eq_iff
        unat_double_plus_one)
    apply (auto simp: max_def min_def)
    done
  have table:
    "getConfidence \<lparr>tag = t, taken_counter = 0, not_taken_counter = 0\<rparr> = low"
    "getConfidence \<lparr>tag = t, taken_counter = 1, not_taken_counter = 0\<rparr> = medium"
    "getConfidence \<lparr>tag = t, taken_counter = 2, not_taken_counter = 0\<rparr> = high"
    "getConfidence \<lparr>tag = t, taken_counter = 3, not_taken_counter = 2\<rparr> = low"
    "getConfidence \<lparr>tag = t, taken_counter = 5, not_taken_counter = 1\<rparr> = high"
    "getConfidence \<lparr>tag = t, taken_counter = 5, not_taken_counter = 2\<rparr> = medium"
    "getConfidence \<lparr>tag = t, taken_counter = 7, not_taken_counter = 3\<rparr> = medium"
    "getConfidence \<lparr>tag = t, taken_counter = 7, not_taken_counter = 0\<rparr> = high"
    by (simp_all add: getConfidence_def)
  from general table show ?thesis by simp
qed

theorem getConfidence_table_witness:
  "getConfidence \<lparr>tag = 0, taken_counter = 5, not_taken_counter = 2\<rparr> = medium
   \<and> getConfidence \<lparr>tag = 0, taken_counter = 5, not_taken_counter = 2\<rparr> \<noteq> low
   \<and> getConfidence \<lparr>tag = 0, taken_counter = 5, not_taken_counter = 2\<rparr> \<noteq> high"
  using getConfidence_table [of "\<lparr>tag = 0, taken_counter = 5, not_taken_counter = 2\<rparr>" 0]
  by simp

text \<open>
  Claim C6. \<^verbatim>\<open>update\<close> saturates asymmetrically: on a true outcome the taken counter
  goes up while it is below 7, and once it is saturated the not-taken counter goes down
  while it is above 0; symmetrically on a false outcome. Ten true updates of a fresh entry
  give \<open>(7, 0)\<close> with high confidence, and two false updates after them give \<open>(7, 2)\<close>,
  still high and with direction true.
\<close>

theorem update_asymmetric_saturation:
  "unat (taken_counter (update True e))
     = (if unat (taken_counter e) < 7 then unat (taken_counter e) + 1
        else unat (taken_counter e))
   \<and> unat (not_taken_counter (update True e))
     = (if unat (taken_counter e) < 7 then unat (not_taken_counter e)
        else unat (not_taken_counter e) - 1)
   \<and> unat (not_taken_counter (update False e))
     = (if unat (not_taken_counter e) < 7 then unat (not_taken_counter e) + 1
        else unat (not_taken_counter e))
   \<and> unat (taken_counter (update False e))
     = (if unat (not_taken_counter e) < 7 then unat (taken_counter e)
        else unat (taken_counter e) - 1)
   \<and> tag (update outcome e) = tag e
   \<and> (update True ^^ 10) (EqualityPredictorEntry_new t)
     = \<lparr>tag = t, taken_counter = 7, not_taken_counter = 0\<rparr>
   \<and> getConfidence ((update True ^^ 10) (EqualityPredictorEntry_new t)) = high
   \<and> (update False ^^ 2) ((update True ^^ 10) (EqualityPredictorEntry_new t))
     = \<lparr>tag = t, taken_counter = 7, not_taken_counter = 2\<rparr>
   \<and> getConfidence ((update False ^^ 2) ((update True ^^ 10) (EqualityPredictorEntry_new t)))
     = high
   \<and> getDirection ((update False ^^ 2) ((update True ^^ 10) (EqualityPredictorEntry_new t)))"
proof -
  have up_true:
    "unat (taken_counter (update True e))
       = (if unat (taken_counter e) < 7 then unat (taken_counter e) + 1
          else unat (taken_counter e))"
    "unat (not_taken_counter (update True e))
       = (if unat (taken_counter e) < 7 then unat (not_taken_counter e)
          else unat (not_taken_counter e) - 1)"
    by (simp_all add: update_def word_less_nat_alt unat_pred unat_succ)
  have up_false:
    "unat (not_taken_counter (update False e))
       = (if unat (not_taken_counter e) < 7 then unat (not_taken_counter e) + 1
          else unat (not_taken_counter e))"
    "unat (taken_counter (update False e))
       = (if unat (not_taken_counter e) < 7 then unat (taken_counter e)
          else unat (taken_counter e) - 1)"
    by (simp_all add: update_def word_less_nat_alt unat_pred unat_succ)
  have up_tag: "tag (update outcome e) = tag e"
    by (simp add: update_def)
  have ten: "(update True ^^ 10) (EqualityPredictorEntry_new t)
      = \<lparr>tag = t, taken_counter = 7, not_taken_counter = 0\<rparr>"
    unfolding funpow_10 by (simp add: update_def EqualityPredictorEntry_new_def)
  have two: "(update False ^^ 2) \<lparr>tag = t, taken_counter = 7, not_taken_counter = 0\<rparr>
      = \<lparr>tag = t, taken_counter = 7, not_taken_counter = 2\<rparr>"
    unfolding funpow_twice by (simp add: update_def)
  have conf: "getConfidence \<lparr>tag = t, taken_counter = 7, not_taken_counter = 0\<rparr> = high"
    "getConfidence \<lparr>tag = t, taken_counter = 7, not_taken_counter = 2\<rparr> = high"
    "getDirection \<lparr>tag = t, taken_counter = 7, not_taken_counter = 2\<rparr>"
    by (simp_all add: getConfidence_def getDirection_def)
  show ?thesis
    unfolding ten two
    using up_true up_false up_tag conf by simp
qed

section \<open>Construction\<close>

lemma emplace_components_ok:
  "\<forall>c\<in>set configs. \<not> cfg_index_bits c + cfg_tag_bits c > 31 \<Longrightarrow>
   emplace_components configs = Inr (map component_of_config configs)"
  by (induction configs)
     (simp_all add: EqualityPredictorComponent_new_def PathTracker_new_def component_of_config_def)

lemma emplace_components_fail:
  "\<exists>c\<in>set configs. cfg_index_bits c + cfg_tag_bits c > 31 \<Longrightarrow>
   emplace_components configs = Inl InvalidArgument"
proof (induction configs)
  case Nil
  then show ?case by simp
next
  case (Cons a configs)
  show ?case
  proof (cases "cfg_index_bits a + cfg_tag_bits a > 31")
    case True
    then show ?thesis
      by (simp add: EqualityPredictorComponent_new_def PathTracker_new_def)
  next
    case False
    with Cons.prems have "\<exists>c\<in>set configs. cfg_index_bits c + cfg_tag_bits c > 31" by auto
    then have "emplace_components configs = Inl InvalidArgument" by (rule Cons.IH)
    with False show ?thesis
      by (simp add: EqualityPredictorComponent_new_def PathTracker_new_def)
  qed
qed

lemma width_no_wrap:
  fixes i t :: size_t
  assumes "unat i + unat t \<le> 31"
  shows "\<not> i + t > 31"
proof -
  from assms have "unat i + unat t < 2 ^ 64" by simp
  then have "unat (i + t) = unat i + unat t" by (simp add: unat_word_ariths)
  with assms show ?thesis by (simp add: word_less_nat_alt)
qed

text \<open>
  Claim C8, as the code has it. Construction throws exactly when some configuration's
  \<^verbatim>\<open>size_t\<close> sum \<open>index_bits + tag_bits\<close> exceeds 31; \<open>size = 2 ^ index_bits\<close> and
  \<open>ghist_bits \<le> 200\<close> are not checked. Every list of configurations that satisfies the
  three constraints is accepted, and the predictor built has one component for each
  configuration, with zeroed history and \<open>size\<close> zeroed entries, and an empty branch queue.
\<close>

theorem construction_checks_width_only:
  "(EqualityPredictor_new configs = Inl InvalidArgument
      \<longleftrightarrow> (\<exists>c\<in>set configs. cfg_index_bits c + cfg_tag_bits c > 31))
   \<and> ((\<forall>c\<in>set configs. \<not> cfg_index_bits c + cfg_tag_bits c > 31) \<longrightarrow>
        EqualityPredictor_new configs
          = Inr \<lparr>ep_components = map component_of_config configs, branch_queue = []\<rparr>)
   \<and> ((\<forall>c\<in>set configs. cfg_size c = 2 ^ unat (cfg_index_bits c)
                        \<and> unat (cfg_index_bits c) + unat (cfg_tag_bits c) \<le> 31
                        \<and> unat (cfg_ghist_bits c) \<le> MAX_HIST) \<longrightarrow>
        EqualityPredictor_new configs
          = Inr \<lparr>ep_components = map component_of_config configs, branch_queue = []\<rparr>)"
proof -
  have ok: "EqualityPredictor_new configs
          = Inr \<lparr>ep_components = map component_of_config configs, branch_queue = []\<rparr>"
    if "\<forall>c\<in>set configs. \<not> cfg_index_bits c + cfg_tag_bits c > 31"
    using emplace_components_ok [OF that] by (simp add: EqualityPredictor_new_def)
  have bad: "EqualityPredictor_new configs = Inl InvalidArgument"
    if "\<exists>c\<in>set configs. cfg_index_bits c + cfg_tag_bits c > 31"
    using emplace_components_fail [OF that] by (simp add: EqualityPredictor_new_def)
  have iff: "EqualityPredictor_new configs = Inl InvalidArgument
      \<longleftrightarrow> (\<exists>c\<in>set configs. cfg_index_bits c + cfg_tag_bits c > 31)"
    using ok bad by (metis Inl_Inr_False)
  have all3: "EqualityPredictor_new configs
          = Inr \<lparr>ep_components = map component_of_config configs, branch_queue = []\<rparr>"
    if "\<forall>c\<in>set configs. cfg_size c = 2 ^ unat (cfg_index_bits c)
                        \<and> unat (cfg_index_bits c) + unat (cfg_tag_bits c) \<le> 31
                        \<and> unat (cfg_ghist_bits c) \<le> MAX_HIST"
    using that by (intro ok) (auto dest: width_no_wrap)
  from iff ok all3 show ?thesis by blast
qed

theorem construction_checks_width_only_witness:
  "EqualityPredictor_new
     [\<lparr>cfg_size = 4, cfg_ghist_bits = 0, cfg_index_bits = 2, cfg_tag_bits = 0\<rparr>,
      \<lparr>cfg_size = 4, cfg_ghist_bits = 4, cfg_index_bits = 2, cfg_tag_bits = 3\<rparr>]
   = Inr \<lparr>ep_components =
            [\<lparr>path = \<lparr>ghist_bits = 0, index_size = 2, tag_size = 0, folded_path = 0,
                      outcome_buffer = 0\<rparr>,
              components = replicate 4 \<lparr>tag = 0, taken_counter = 0, not_taken_counter = 0\<rparr>\<rparr>,
             \<lparr>path = \<lparr>ghist_bits = 4, index_size = 2, tag_size = 3, folded_path = 0,
                      outcome_buffer = 0\<rparr>,
              components = replicate 4 \<lparr>tag = 0, taken_counter = 0, not_taken_counter = 0\<rparr>\<rparr>],
          branch_queue = []\<rparr>
   \<and> EqualityPredictor_new
       [\<lparr>cfg_size = 4, cfg_ghist_bits = 0, cfg_index_bits = 2, cfg_tag_bits = 0\<rparr>,
        \<lparr>cfg_size = 4, cfg_ghist_bits = 4, cfg_index_bits = 20, cfg_tag_bits = 12\<rparr>]
     = Inl InvalidArgument"
  using construction_checks_width_only [of "[\<lparr>cfg_size = 4, cfg_ghist_bits = 0, cfg_index_bits = 2, cfg_tag_bits = 0\<rparr>,
      \<lparr>cfg_size = 4, cfg_ghist_bits = 4, cfg_index_bits = 2, cfg_tag_bits = 3\<rparr>]"]
    construction_checks_width_only [of "[\<lparr>cfg_size = 4, cfg_ghist_bits = 0, cfg_index_bits = 2, cfg_tag_bits = 0\<rparr>,
        \<lparr>cfg_size = 4, cfg_ghist_bits = 4, cfg_index_bits = 20, cfg_tag_bits = 12\<rparr>]"]
  by (simp add: component_of_config_def EqualityPredictorEntry_new_def MAX_HIST_def)

text \<open>Claim C8 as stated fails for a configuration with \<open>size = 3\<close>, \<open>index_bits = 2\<close>
  and \<open>ghist_bits = 201\<close>: two of the three constraints are violated and construction
  succeeds.\<close>

theorem construction_unchecked_counterexample:
  "EqualityPredictor_new
     [\<lparr>cfg_size = 3, cfg_ghist_bits = 201, cfg_index_bits = 2, cfg_tag_bits = 0\<rparr>]
   = Inr \<lparr>ep_components =
            [\<lparr>path = \<lparr>ghist_bits = 201, index_size = 2, tag_size = 0, folded_path = 0,
                      outcome_buffer = 0\<rparr>,
              components = replicate 3 \<lparr>tag = 0, taken_counter = 0, not_taken_counter = 0\<rparr>\<rparr>],
          branch_queue = []\<rparr>
   \<and> (3 :: size_t) \<noteq> 2 ^ unat (2 :: size_t)
   \<and> \<not> unat (201 :: size_t) \<le> MAX_HIST"
  by (simp add: EqualityPredictor_new_def EqualityPredictorComponent_new_def PathTracker_new_def
      EqualityPredictorEntry_new_def MAX_HIST_def)

section \<open>The facade\<close>

text \<open>
  Claim C9. \<^verbatim>\<open>ValuePredictor::onValueCommit\<close> fails exactly as the equality predictor's
  \<^verbatim>\<open>onValueCommit\<close> does on the comparison of the value with the table's previous content
  (0 for a program counter without an entry); otherwise the predictor state is that call's
  result, and the table then maps the program counter to the value.
\<close>

theorem vp_onValueCommit_compares_then_overwrites:
  "(case vp_onValueCommit pc val rnd vp of
      Inl e \<Rightarrow> onValueCommit pc (val = lookup (lcvt vp) pc) rnd (ep vp) = Inl e
    | Inr vp' \<Rightarrow>
        onValueCommit pc (val = lookup (lcvt vp) pc) rnd (ep vp) = Inr (ep vp')
        \<and> lcvt vp' = (lcvt vp)(pc \<mapsto> val)
        \<and> hasValue (lcvt vp') pc
        \<and> lookup (lcvt vp') pc = val)
   \<and> lookup (lcvt vp) pc = (if hasValue (lcvt vp) pc then the (lcvt vp pc) else 0)"
  by (auto simp: vp_onValueCommit_def lookup_def hasValue_def table_update_def split: sum.splits)

text \<open>
  Claim C10. A \<^verbatim>\<open>predict\<close> that returns leaves the predictor state as it was, and a
  second \<^verbatim>\<open>predict\<close> on that state returns the same pair; likewise for the facade.
\<close>

theorem predict_leaves_state:
  "(case predict pc st of
      Inl e \<Rightarrow> True
    | Inr (r, st') \<Rightarrow> st' = st \<and> predict pc st' = Inr (r, st'))
   \<and> (case vp_predict pc vp of
      Inl e \<Rightarrow> True
    | Inr (r, vp') \<Rightarrow> vp' = vp \<and> vp_predict pc vp' = Inr (r, vp'))"
  by (auto simp: predict_def vp_predict_def split: sum.splits option.splits)

section \<open>Selection of the primary and the alternate entry\<close>

lemma getPredictingEntries_loop_append:
  "getPredictingEntries_loop pc st (xs @ ys) r =
     (case getPredictingEntries_loop pc st xs r of
        Inl e \<Rightarrow> Inl e
      | Inr r' \<Rightarrow> getPredictingEntries_loop pc st ys r')"
  by (induction xs arbitrary: r) (auto split: sum.splits option.splits)

lemma selected_miss:
  assumes "selected pc st n pd" "hit_confidence pc st n = None"
  shows "selected pc st (Suc n) pd"
  using assms
  by (auto simp: selected_def leading_hit_def less_Suc_eq split: option.splits)

lemma selected_first:
  assumes "selected pc st n pd" "primary pd = None"
    and "getEntry pc (ep_components st ! n) = Inr (Some slot)"
  shows "selected pc st (Suc n)
           (pd\<lparr>alt := primary pd, alt_index := primary_index pd,
               primary := Some (n, slot), primary_index := n\<rparr>)"
  using assms
  by (auto simp: selected_def leading_hit_def hit_confidence_def less_Suc_eq split: option.splits)

lemma selected_take:
  assumes "selected pc st n pd" "primary pd = Some r"
    and "getEntry pc (ep_components st ! n) = Inr (Some slot)"
    and "confidence_value (getConfidence (entry_at st (n, slot)))
           \<ge> confidence_value (getConfidence (entry_at st r))"
  shows "selected pc st (Suc n)
           (pd\<lparr>alt := primary pd, alt_index := primary_index pd,
               primary := Some (n, slot), primary_index := n\<rparr>)"
proof -
  have hn: "hit_confidence pc st n = Some (confidence_value (getConfidence (entry_at st (n, slot))))"
    using assms(3) by (simp add: hit_confidence_def)
  have below: "\<forall>j<n. case hit_confidence pc st j of
                      None \<Rightarrow> True
                    | Some c \<Rightarrow> c \<le> confidence_value (getConfidence (entry_at st r))"
    using assms(1,2) by (simp add: selected_def)
  have lead: "leading_hit pc st n"
    unfolding leading_hit_def hn using below assms(4)
    by (auto split: option.splits)
  have top: "\<forall>j<Suc n. case hit_confidence pc st j of
                      None \<Rightarrow> True
                    | Some c \<Rightarrow> c \<le> confidence_value (getConfidence (entry_at st (n, slot)))"
    using below assms(4) hn by (auto simp: less_Suc_eq split: option.splits)
  show ?thesis
    using assms(1,2,3) lead top
    by (simp add: selected_def)
qed

lemma selected_keep:
  assumes "selected pc st n pd" "primary pd = Some r"
    and "getEntry pc (ep_components st ! n) = Inr (Some slot)"
    and "\<not> confidence_value (getConfidence (entry_at st (n, slot)))
           \<ge> confidence_value (getConfidence (entry_at st r))"
  shows "selected pc st (Suc n) pd"
proof -
  have hn: "hit_confidence pc st n = Some (confidence_value (getConfidence (entry_at st (n, slot))))"
    using assms(3) by (simp add: hit_confidence_def)
  have hp: "hit_confidence pc st (primary_index pd)
      = Some (confidence_value (getConfidence (entry_at st r)))" and pn: "primary_index pd < n"
    using assms(1,2) by (cases r; simp add: selected_def hit_confidence_def)+
  have "\<not> leading_hit pc st n"
    unfolding leading_hit_def hn using hp pn assms(4)
    by (auto split: option.splits)
  then show ?thesis
    using assms(1,2,4) hn
    by (auto simp: selected_def less_Suc_eq split: option.splits)
qed

lemma selected_step:
  assumes "selected pc st n pd"
    and "getPredictingEntries_loop pc st [n] pd = Inr pd'"
  shows "selected pc st (Suc n) pd'"
proof (cases "getEntry pc (ep_components st ! n)")
  case (Inl e)
  with assms(2) show ?thesis by simp
next
  case (Inr entryOpt)
  show ?thesis
  proof (cases entryOpt)
    case None
    with Inr have "hit_confidence pc st n = None" by (simp add: hit_confidence_def)
    moreover from None Inr assms(2) have "pd' = pd" by simp
    ultimately show ?thesis using assms(1) by (simp add: selected_miss)
  next
    case (Some slot)
    note hit = Inr [unfolded Some]
    show ?thesis
    proof (cases "primary pd")
      case None
      with hit assms(2) have "pd' = pd\<lparr>alt := primary pd, alt_index := primary_index pd,
               primary := Some (n, slot), primary_index := n\<rparr>" by simp
      then show ?thesis using selected_first [OF assms(1) None hit] by simp
    next
      case (Some r)
      show ?thesis
      proof (cases "confidence_value (getConfidence (entry_at st (n, slot)))
           \<ge> confidence_value (getConfidence (entry_at st r))")
        case True
        with hit Some assms(2) have "pd' = pd\<lparr>alt := primary pd, alt_index := primary_index pd,
               primary := Some (n, slot), primary_index := n\<rparr>" by simp
        then show ?thesis using selected_take [OF assms(1) Some hit True] by simp
      next
        case False
        with hit Some assms(2) have "pd' = pd" by simp
        then show ?thesis using selected_keep [OF assms(1) Some hit False] by simp
      qed
    qed
  qed
qed

lemma selected_upto:
  "getPredictingEntries_loop pc st [0..<n]
     \<lparr>primary = None, primary_index = 0, alt = None, alt_index = 0\<rparr> = Inr pd
   \<Longrightarrow> selected pc st n pd"
proof (induction n arbitrary: pd)
  case 0
  then show ?case by (auto simp: selected_def)
next
  case (Suc n)
  from Suc.prems obtain pd0 where
    a: "getPredictingEntries_loop pc st [0..<n]
          \<lparr>primary = None, primary_index = 0, alt = None, alt_index = 0\<rparr> = Inr pd0"
    and b: "getPredictingEntries_loop pc st [n] pd0 = Inr pd"
    by (auto simp: getPredictingEntries_loop_append split: sum.splits)
  from Suc.IH [OF a] b show ?case by (rule selected_step)
qed

lemma index_in_table:
  "unat ((x :: 32 word) AND (push_bit k 1 - 1)) < 2 ^ k"
proof -
  have m: "(push_bit k 1 - 1 :: 32 word) = mask k"
    by (simp add: mask_eq_exp_minus_1 push_bit_eq_mult)
  have "unat (take_bit k x) = take_bit k (unat x)"
    by (rule unsigned_take_bit_eq)
  also have "\<dots> < 2 ^ k"
    by (simp only: take_bit_eq_mod) simp
  finally show ?thesis
    by (simp only: m take_bit_eq_mask)
qed

lemma getEntryConflict_defined:
  assumes "lookup_defined c"
  shows "\<exists>slot. getEntryConflict pc c = Inr slot \<and> slot < length (components c)"
proof -
  from assms have k: "unat (index_size (path c)) < 32"
    and sz: "2 ^ unat (index_size (path c)) \<le> length (components c)"
    by (simp_all add: lookup_defined_def)
  from index_in_table [of "combined pc (path c)" "unat (index_size (path c))"] sz
  have "unat (combined pc (path c) AND (push_bit (unat (index_size (path c))) 1 - 1))
      < length (components c)" by simp
  with k show ?thesis
    by (simp add: getEntryConflict_def getIndex_def del: push_bit_Suc One_nat_def)
qed

lemma getEntry_defined:
  assumes "lookup_defined c"
  shows "\<exists>x. getEntry pc c = Inr x"
proof -
  from getEntryConflict_defined [OF assms] obtain slot where
    "getEntryConflict pc c = Inr slot" by blast
  moreover from assms have "\<exists>tg. getTag pc (path c) = Inr tg"
    by (simp add: getTag_def lookup_defined_def)
  ultimately show ?thesis
    by (auto simp: getEntry_def)
qed

lemma lookups_definedD:
  "lookups_defined st \<Longrightarrow> i < length (ep_components st) \<Longrightarrow> lookup_defined (ep_components st ! i)"
  by (simp add: lookups_defined_def list_all_length)

lemma getPredictingEntries_loop_total:
  assumes "lookups_defined st" "\<forall>i\<in>set xs. i < length (ep_components st)"
  shows "\<exists>pd. getPredictingEntries_loop pc st xs r = Inr pd"
  using assms(2)
proof (induction xs arbitrary: r)
  case Nil
  then show ?case by simp
next
  case (Cons i rest)
  from Cons.prems have "lookup_defined (ep_components st ! i)"
    using assms(1) by (simp add: lookups_definedD)
  then obtain x where x: "getEntry pc (ep_components st ! i) = Inr x"
    using getEntry_defined by blast
  from Cons.prems have rest: "\<forall>i\<in>set rest. i < length (ep_components st)" by simp
  show ?case
    using x Cons.IH [OF rest]
    by (cases x) (simp_all split: option.splits)
qed

lemma getPredictingEntries_total:
  "lookups_defined st \<Longrightarrow> \<exists>pd. getPredictingEntries pc st = Inr pd"
  unfolding getPredictingEntries_def
  by (rule getPredictingEntries_loop_total) simp_all

lemma predict_no_hit:
  assumes "\<forall>i<length (ep_components st). getEntry pc (ep_components st ! i) = Inr None"
  shows "predict pc st = Inr ((low, False), st)"
proof -
  have "getPredictingEntries_loop pc st xs r = Inr r"
    if "\<forall>i\<in>set xs. i < length (ep_components st)" for xs r
    using that assms by (induction xs) simp_all
  then have "getPredictingEntries pc st
      = Inr \<lparr>primary = None, primary_index = 0, alt = None, alt_index = 0\<rparr>"
    by (simp add: getPredictingEntries_def)
  then show ?thesis by (simp add: predict_def)
qed

lemma lookups_defined_two_hits: "lookups_defined two_hits"
  by (simp add: lookups_defined_def lookup_defined_def two_hits_def)

lemma getPredictingEntries_two_hits: "getPredictingEntries 2 two_hits = Inr \<lparr>primary = Some (1, 0), primary_index = 1, alt = Some (0, 0), alt_index = 0\<rparr>"
  by (simp add: two_hits_def getPredictingEntries_def getEntry_def getEntryConflict_def getTag_def getIndex_def combined_def entry_at_def getConfidence_def upt_rec [of 0] upt_rec [of 1])

text \<open>
  Claim C3. In a state where every lookup is defined, \<^verbatim>\<open>getPredictingEntries\<close> returns
  for every \<open>pc\<close>, and so does \<^verbatim>\<open>predict\<close>, leaving the state as it was. Whenever
  \<^verbatim>\<open>getPredictingEntries\<close> returns, its primary is the last leading hit (the hit of
  highest component index whose confidence is at least that of every earlier hit), no hit
  has a higher confidence than the primary, and its alternate is the leading hit before the
  primary (none when the primary is the first hit); \<^verbatim>\<open>predict\<close> returns the primary's
  confidence and direction. When no component hits, \<^verbatim>\<open>predict\<close> returns \<open>(low, False)\<close>.
\<close>

theorem getPredictingEntries_selection:
  "(lookups_defined st \<longrightarrow>
      (\<exists>pd. getPredictingEntries pc st = Inr pd)
      \<and> (\<exists>c d. predict pc st = Inr ((c, d), st)))
   \<and> (\<forall>pd. getPredictingEntries pc st = Inr pd \<longrightarrow>
        (case primary pd of
            None \<Rightarrow>
              alt pd = None
              \<and> (\<forall>i<length (ep_components st). hit_confidence pc st i = None)
              \<and> predict pc st = Inr ((low, False), st)
          | Some r \<Rightarrow>
              fst r = primary_index pd \<and> primary_index pd < length (ep_components st)
              \<and> getEntry pc (ep_components st ! primary_index pd) = Inr (Some (snd r))
              \<and> leading_hit pc st (primary_index pd)
              \<and> (\<forall>k<length (ep_components st). primary_index pd < k \<longrightarrow> \<not> leading_hit pc st k)
              \<and> (\<forall>j<length (ep_components st).
                    case hit_confidence pc st j of
                      None \<Rightarrow> True
                    | Some c \<Rightarrow> c \<le> confidence_value (getConfidence (entry_at st r)))
              \<and> (case alt pd of
                    None \<Rightarrow> (\<forall>q<primary_index pd. hit_confidence pc st q = None)
                  | Some a \<Rightarrow>
                      fst a = alt_index pd \<and> alt_index pd < primary_index pd
                      \<and> getEntry pc (ep_components st ! alt_index pd) = Inr (Some (snd a))
                      \<and> leading_hit pc st (alt_index pd)
                      \<and> (\<forall>k<primary_index pd. alt_index pd < k \<longrightarrow> \<not> leading_hit pc st k))
              \<and> predict pc st
                  = Inr ((getConfidence (entry_at st r), getDirection (entry_at st r)), st))
         \<and> ((\<forall>i<length (ep_components st). hit_confidence pc st i = None)
              \<longrightarrow> predict pc st = Inr ((low, False), st)))
   \<and> ((\<forall>i<length (ep_components st). getEntry pc (ep_components st ! i) = Inr None)
        \<longrightarrow> predict pc st = Inr ((low, False), st))"
proof (intro conjI impI allI)
  assume "lookups_defined st"
  then obtain pd where pd: "getPredictingEntries pc st = Inr pd"
    using getPredictingEntries_total by blast
  then show "\<exists>pd. getPredictingEntries pc st = Inr pd" ..
  from pd show "\<exists>c d. predict pc st = Inr ((c, d), st)"
    by (cases "primary pd") (auto simp: predict_def)
next
  assume "\<forall>i<length (ep_components st). getEntry pc (ep_components st ! i) = Inr None"
  then show "predict pc st = Inr ((low, False), st)" by (rule predict_no_hit)
next
  fix pd
  assume gpe: "getPredictingEntries pc st = Inr pd"
  have sel: "selected pc st (length (ep_components st)) pd"
    using gpe unfolding getPredictingEntries_def by (rule selected_upto)
  show "case primary pd of
            None \<Rightarrow>
              alt pd = None
              \<and> (\<forall>i<length (ep_components st). hit_confidence pc st i = None)
              \<and> predict pc st = Inr ((low, False), st)
          | Some r \<Rightarrow>
              fst r = primary_index pd \<and> primary_index pd < length (ep_components st)
              \<and> getEntry pc (ep_components st ! primary_index pd) = Inr (Some (snd r))
              \<and> leading_hit pc st (primary_index pd)
              \<and> (\<forall>k<length (ep_components st). primary_index pd < k \<longrightarrow> \<not> leading_hit pc st k)
              \<and> (\<forall>j<length (ep_components st).
                    case hit_confidence pc st j of
                      None \<Rightarrow> True
                    | Some c \<Rightarrow> c \<le> confidence_value (getConfidence (entry_at st r)))
              \<and> (case alt pd of
                    None \<Rightarrow> (\<forall>q<primary_index pd. hit_confidence pc st q = None)
                  | Some a \<Rightarrow>
                      fst a = alt_index pd \<and> alt_index pd < primary_index pd
                      \<and> getEntry pc (ep_components st ! alt_index pd) = Inr (Some (snd a))
                      \<and> leading_hit pc st (alt_index pd)
                      \<and> (\<forall>k<primary_index pd. alt_index pd < k \<longrightarrow> \<not> leading_hit pc st k))
              \<and> predict pc st
                  = Inr ((getConfidence (entry_at st r), getDirection (entry_at st r)), st)"
    using sel gpe by (cases "primary pd") (simp_all add: selected_def predict_def)
  assume none: "\<forall>i<length (ep_components st). hit_confidence pc st i = None"
  show "predict pc st = Inr ((low, False), st)"
  proof (cases "primary pd")
    case None
    with gpe show ?thesis by (simp add: predict_def)
  next
    case (Some r)
    with sel have "primary_index pd < length (ep_components st)"
      and "leading_hit pc st (primary_index pd)"
      by (simp_all add: selected_def)
    with none show ?thesis
      by (auto simp: leading_hit_def split: option.splits)
  qed
qed

theorem getPredictingEntries_selection_witness:
  "lookups_defined two_hits
   \<and> getPredictingEntries 2 two_hits = Inr \<lparr>primary = Some (1, 0), primary_index = 1, alt = Some (0, 0), alt_index = 0\<rparr>
   \<and> leading_hit 2 two_hits 1 \<and> leading_hit 2 two_hits 0
   \<and> predict 2 two_hits = Inr ((high, True), two_hits)"
  using getPredictingEntries_selection [of two_hits 2, THEN conjunct2, THEN conjunct1, rule_format, OF getPredictingEntries_two_hits]
    getPredictingEntries_selection [of two_hits 2, THEN conjunct1, rule_format, OF lookups_defined_two_hits]
  by (simp add: getPredictingEntries_two_hits lookups_defined_two_hits)
     (simp add: two_hits_def entry_at_def getConfidence_def getDirection_def)

lemma predict_two_hits: "predict 2 two_hits = Inr ((high, True), two_hits)"
  by (simp add: predict_def getPredictingEntries_two_hits)
     (simp add: two_hits_def entry_at_def getConfidence_def getDirection_def)

theorem predict_leaves_state_witness:
  "predict 2 two_hits = Inr ((high, True), two_hits)
   \<and> vp_predict 2 two_hits_vp = Inr ((high, 7), two_hits_vp)"
  using predict_leaves_state [where pc = 2 and st = two_hits and vp = two_hits_vp]
  by (simp add: predict_two_hits vp_predict_def two_hits_vp_def hasValue_def lookup_def)

section \<open>The folded history: addBranch and revertBranches\<close>

lemma bit_shl1:
  fixes x :: "'a::len word"
  shows "bit (push_bit 1 x) n \<longleftrightarrow> 0 < n \<and> n < LENGTH('a) \<and> bit x (n - 1)"
  by (auto simp only: bit_push_bit_iff possible_bit_word One_nat_def Suc_le_eq)

lemma bit_shr1:
  fixes x :: "'a::len word"
  shows "bit (drop_bit 1 x) n \<longleftrightarrow> bit x (Suc n)"
  by (simp only: bit_drop_bit_eq comp_def plus_1_eq_Suc)

lemma bit_lsb:
  fixes x :: "'a::len word"
  shows "bit (x AND 1) n \<longleftrightarrow> n = 0 \<and> bit x 0"
  by (auto simp only: bit_and_iff bit_1_iff)

lemma bit_shifted_bool:
  "bit (push_bit k (of_bool b :: 'a::len word)) n \<longleftrightarrow> b \<and> n = k \<and> k < LENGTH('a)"
  by (auto simp only: bit_push_bit_iff bit_of_bool_iff possible_bit_word)

lemma small_bits:
  fixes fp :: "32 word"
  assumes "fp < 2 ^ w" "w \<le> n"
  shows "\<not> bit fp n"
proof -
  from assms(1) have "fp AND mask w = fp" by (rule less_mask_eq)
  then have "bit fp n = bit (fp AND mask w) n" by simp
  with assms(2) show ?thesis by (simp add: bit_simps)
qed


lemma rotl_bit:
  fixes fp :: "32 word"
  assumes "1 \<le> w" "w \<le> 31" "fp < 2 ^ w"
  shows "bit ((push_bit 1 fp AND (push_bit w 1 - 1)) OR (drop_bit (w - 1) fp AND 1)) n
     \<longleftrightarrow> (if n = 0 then bit fp (w - 1) else n < w \<and> bit fp (n - 1))"
proof -
  have m: "push_bit w 1 - 1 = (mask w :: 32 word)" by (simp add: mask_eq_exp_minus_1)
  have "bit ((push_bit 1 fp AND mask w) OR (drop_bit (w - 1) fp AND 1)) n
     \<longleftrightarrow> (0 < n \<and> n < 32 \<and> bit fp (n - 1) \<and> n < w) \<or> (n = 0 \<and> bit fp (w - 1))"
    unfolding bit_or_iff bit_and_iff bit_shl1 bit_1_iff bit_mask_iff bit_drop_bit_eq comp_def
      possible_bit_word
    by auto
  with assms(1,2) show ?thesis
    unfolding m by auto
qed

lemma rotr_bit:
  fixes x :: "32 word"
  assumes "1 \<le> w" "w \<le> 31"
  shows "bit (drop_bit 1 x OR push_bit (w - 1) (x AND 1)) n
     \<longleftrightarrow> bit x (Suc n) \<or> (n = w - 1 \<and> bit x 0)"
proof -
  have "bit (drop_bit 1 x OR push_bit (w - 1) (x AND 1)) n
     \<longleftrightarrow> bit x (Suc n) \<or> (w - 1 \<le> n \<and> n < 32 \<and> n - (w - 1) = 0 \<and> bit x 0)"
    unfolding bit_or_iff bit_shr1 bit_push_bit_iff bit_and_iff bit_1_iff possible_bit_word
    by auto
  with assms show ?thesis by auto
qed

lemma rot_inv:
  fixes fp :: "32 word"
  assumes "1 \<le> w" "w \<le> 31" "fp < 2 ^ w"
  shows "drop_bit 1 ((push_bit 1 fp AND (push_bit w 1 - 1)) OR (drop_bit (w - 1) fp AND 1))
         OR push_bit (w - 1) (((push_bit 1 fp AND (push_bit w 1 - 1)) OR (drop_bit (w - 1) fp AND 1)) AND 1) = fp"
proof (rule bit_word_eqI)
  fix n
  assume "n < LENGTH(32)"
  have hi: "\<not> bit fp k" if "k \<ge> w" for k
    using assms(3) that by (rule small_bits)
  show "bit (drop_bit 1 ((push_bit 1 fp AND (push_bit w 1 - 1)) OR (drop_bit (w - 1) fp AND 1))
         OR push_bit (w - 1) (((push_bit 1 fp AND (push_bit w 1 - 1)) OR (drop_bit (w - 1) fp AND 1)) AND 1)) n = bit fp n"
  proof (cases "n < w")
    case True
    then show ?thesis
      unfolding rotr_bit [OF assms(1,2)] rotl_bit [OF assms]
      using assms(1) by (cases "n = w - 1") auto
  next
    case False
    then show ?thesis
      unfolding rotr_bit [OF assms(1,2)] rotl_bit [OF assms]
      using assms(1) hi [of n] by auto
  qed
qed


lemma fold_out_in:
  assumes "1 \<le> w" "w \<le> 31" "fp < 2 ^ w"
  shows "fold_out w pos (fold_in w pos fp old_outcome outcome) outcome old_outcome = fp"
proof -
  have cancel: "((((r XOR a) XOR b) XOR b) XOR a) = r" for r a b :: "32 word"
    by (simp add: bit_eq_iff bit_xor_iff) blast
  show ?thesis
    unfolding fold_out_def fold_in_def cancel
    using assms by (rule rot_inv)
qed

lemma upper_bits_clear:
  fixes x :: "32 word"
  assumes "w \<le> 31" "\<And>n. w \<le> n \<Longrightarrow> \<not> bit x n"
  shows "x < 2 ^ w"
proof -
  have "x AND mask w = x"
    using assms(2) by (auto simp: bit_eq_iff bit_and_iff bit_mask_iff not_le [symmetric])
  then have "x = x AND mask w" by simp
  also have "\<dots> < 2 ^ w"
    using assms(1) by (intro and_mask_less') simp
  finally show ?thesis .
qed

lemma fold_in_bound:
  assumes "1 \<le> w" "w \<le> 31" "pos < w" "fp < 2 ^ w"
  shows "fold_in w pos fp old_outcome outcome < 2 ^ w"
proof (rule upper_bits_clear [OF assms(2)])
  fix n
  assume "w \<le> n"
  with assms show "\<not> bit (fold_in w pos fp old_outcome outcome) n"
    unfolding fold_in_def bit_xor_iff rotl_bit [OF assms(1,2,4)] bit_shifted_bool bit_of_bool_iff
    by auto
qed

lemma config_words:
  assumes "fold_defined p" "ghist_bits p \<noteq> 0"
  shows "unat (index_size p + tag_size p - 1) = width p - 1"
    and "unat (ghist_bits p mod (index_size p + tag_size p)) = fold_position p"
    and "unat (ghist_bits p - 1) = unat (ghist_bits p) - 1"
    and "1 \<le> width p" and "width p \<le> 31" and "fold_position p < width p"
    and "1 \<le> unat (ghist_bits p)" and "unat (ghist_bits p) \<le> 200"
proof -
  from assms(1) have w: "1 \<le> width p" "width p \<le> 31" and g: "unat (ghist_bits p) \<le> 200"
    by (simp_all add: fold_defined_def width_def MAX_HIST_def)
  from w have nz: "index_size p + tag_size p \<noteq> 0"
    by (auto simp: width_def)
  show "unat (index_size p + tag_size p - 1) = width p - 1"
    using nz by (simp add: unat_minus_one width_def)
  show "unat (ghist_bits p mod (index_size p + tag_size p)) = fold_position p"
    by (simp add: unat_mod fold_position_def width_def)
  show "unat (ghist_bits p - 1) = unat (ghist_bits p) - 1"
    using assms(2) by (simp add: unat_minus_one)
  show "1 \<le> width p" "width p \<le> 31" by fact+
  show "fold_position p < width p"
    using w by (simp add: fold_position_def)
  show "1 \<le> unat (ghist_bits p)"
    using assms(2) by (simp add: unat_gt_0 Suc_le_eq)
  show "unat (ghist_bits p) \<le> 200" by fact
qed

lemma addBranch_defined:
  assumes "fold_defined p" "ghist_bits p \<noteq> 0"
  shows "addBranch outcome p =
     Inr (p\<lparr>folded_path := fold_in (width p) (fold_position p) (folded_path p)
                              (bit (outcome_buffer p) (unat (ghist_bits p) - 1)) outcome,
            outcome_buffer := bitset_assign 0 outcome (push_bit 1 (outcome_buffer p))\<rparr>)"
  using assms
  by (simp add: addBranch_def Let_def config_words(1-3) [OF assms] fold_in_def width_def
      del: push_bit_Suc One_nat_def)

lemma revertBranches_step_defined:
  assumes "fold_defined p" "ghist_bits p \<noteq> 0"
  shows "revertBranches_step p =
     Inr (p\<lparr>folded_path := fold_out (width p) (fold_position p) (folded_path p)
                              (bit (outcome_buffer p) 0)
                              (bit (drop_bit 1 (outcome_buffer p)) (unat (ghist_bits p) - 1)),
            outcome_buffer := drop_bit 1 (outcome_buffer p)\<rparr>)"
  using assms
  by (simp add: revertBranches_step_def Let_def config_words(1-3) [OF assms] fold_out_def
      del: push_bit_Suc One_nat_def drop_bit_Suc)

lemma bit_buffer_pushed:
  "bit (bitset_assign 0 outcome (push_bit 1 buf)) n
     \<longleftrightarrow> (if n = 0 then outcome else n < 200 \<and> bit buf (n - 1))"
  unfolding bitset_assign_def
  by (cases outcome) (auto simp add: bit_set_bit_iff bit_unset_bit_iff bit_shl1 possible_bit_word
      simp del: push_bit_Suc One_nat_def)

lemma buffer_pushed_dropped:
  "drop_bit 1 (bitset_assign 0 outcome (push_bit 1 buf)) = unset_bit 199 buf"
proof (rule bit_word_eqI)
  fix n assume "n < LENGTH(200)"
  show "bit (drop_bit 1 (bitset_assign 0 outcome (push_bit 1 buf))) n = bit (unset_bit 199 buf) n"
    unfolding bit_shr1 bit_buffer_pushed bit_unset_bit_iff
    using bit_imp_le_length [of buf n] by auto
qed


lemma same_config_simps:
  "same_config p q \<Longrightarrow> fold_defined p = fold_defined q"
  "same_config p q \<Longrightarrow> width p = width q"
  "same_config p q \<Longrightarrow> fold_position p = fold_position q"
  "same_config p q \<Longrightarrow> ghist_bits p = ghist_bits q"
  by (simp_all add: same_config_def fold_defined_def width_def fold_position_def)

lemma same_config_refl [simp]: "same_config p p"
  by (simp add: same_config_def)

lemma same_config_sym: "same_config p q \<Longrightarrow> same_config q p"
  by (simp add: same_config_def)

lemma same_config_trans: "same_config p q \<Longrightarrow> same_config q r \<Longrightarrow> same_config p r"
  by (simp add: same_config_def)

lemma same_config_update [simp]:
  "same_config (p\<lparr>folded_path := f, outcome_buffer := b\<rparr>) q = same_config p q"
  "same_config q (p\<lparr>folded_path := f, outcome_buffer := b\<rparr>) = same_config q p"
  by (simp_all add: same_config_def)

lemma tracker_ok_new:
  "PathTracker_new g i tg = Inr p \<Longrightarrow>
     tracker_ok p \<and> ghist_bits p = g \<and> index_size p = i \<and> tag_size p = tg
     \<and> folded_path p = 0 \<and> outcome_buffer p = 0"
proof -
  assume a: "PathTracker_new g i tg = Inr p"
  then have p: "p = \<lparr>ghist_bits = g, index_size = i, tag_size = tg,
                folded_path = 0, outcome_buffer = 0\<rparr>"
    by (auto simp: PathTracker_new_def split: if_splits)
  have "(0 :: 32 word) < 2 ^ width p" if "fold_defined p"
  proof -
    from that have "width p < LENGTH(32)" by (simp add: fold_defined_def width_def)
    then have "(2 :: 32 word) ^ width p \<noteq> 0" by (simp only: exp_eq_zero_iff not_le not_False_eq_True)
    then show ?thesis by (simp add: word_gt_0)
  qed
  then show ?thesis
    by (auto simp: tracker_ok_def p)
qed

lemma addBranch_cases:
  "addBranch outcome p =
     (if ghist_bits p = 0 then Inr p
      else if \<not> fold_defined p then Inl UndefinedBehaviour
      else Inr (p\<lparr>folded_path := fold_in (width p) (fold_position p) (folded_path p)
                              (bit (outcome_buffer p) (unat (ghist_bits p) - 1)) outcome,
            outcome_buffer := bitset_assign 0 outcome (push_bit 1 (outcome_buffer p))\<rparr>))"
proof (cases "ghist_bits p \<noteq> 0 \<and> fold_defined p")
  case True
  then show ?thesis by (simp add: addBranch_defined)
next
  case False
  then show ?thesis by (auto simp: addBranch_def)
qed

lemma fold_defined_update [simp]:
  "fold_defined (p\<lparr>folded_path := f, outcome_buffer := b\<rparr>) = fold_defined p"
  "width (p\<lparr>folded_path := f, outcome_buffer := b\<rparr>) = width p"
  "fold_position (p\<lparr>folded_path := f, outcome_buffer := b\<rparr>) = fold_position p"
  by (simp_all add: fold_defined_def width_def fold_position_def)

lemma addBranch_ok:
  assumes "tracker_ok p" "addBranch outcome p = Inr p'"
  shows "tracker_ok p' \<and> same_config p' p"
proof (cases "ghist_bits p \<noteq> 0 \<and> fold_defined p")
  case True
  then have d: "fold_defined p" and g: "ghist_bits p \<noteq> 0" by simp_all
  from assms(1) d have "folded_path p < 2 ^ width p" by (simp add: tracker_ok_def)
  then have "fold_in (width p) (fold_position p) (folded_path p)
        (bit (outcome_buffer p) (unat (ghist_bits p) - 1)) outcome < 2 ^ width p"
    using config_words(4-6) [OF d g] by (intro fold_in_bound)
  with assms(2) d g show ?thesis
    by (auto simp: addBranch_cases tracker_ok_def)
next
  case False
  with assms show ?thesis
    by (auto simp: addBranch_cases split: if_splits)
qed

lemma addBranches_ok:
  "tracker_ok p \<Longrightarrow> addBranches outcomes p = Inr p' \<Longrightarrow> tracker_ok p' \<and> same_config p' p"
proof (induction outcomes arbitrary: p)
  case Nil
  then show ?case by simp
next
  case (Cons outcome outcomes)
  from Cons.prems(2) obtain p1 where a: "addBranch outcome p = Inr p1"
    and b: "addBranches outcomes p1 = Inr p'"
    by (auto split: sum.splits)
  from addBranch_ok [OF Cons.prems(1) a] Cons.IH [OF _ b]
  show ?case by (auto intro: same_config_trans)
qed

lemma revertBranches_one:
  "revertBranches 1 p = (if ghist_bits p = 0 then Inr p else revertBranches_step p)"
  by (simp add: revertBranches_def split: sum.splits)

lemma revert_after_add:
  assumes ok: "tracker_ok p" and d: "fold_defined p" and g: "ghist_bits p \<noteq> 0"
    and top: "unat (ghist_bits p) < 200 \<or> \<not> bit (outcome_buffer p) 199"
  shows "revertBranches_step
           (p\<lparr>folded_path := fold_in (width p) (fold_position p) (folded_path p)
                              (bit (outcome_buffer p) (unat (ghist_bits p) - 1)) outcome,
              outcome_buffer := bitset_assign 0 outcome (push_bit 1 (outcome_buffer p))\<rparr>)
         = Inr (p\<lparr>outcome_buffer := unset_bit 199 (outcome_buffer p)\<rparr>)"
proof -
  let ?p1 = "p\<lparr>folded_path := fold_in (width p) (fold_position p) (folded_path p)
                              (bit (outcome_buffer p) (unat (ghist_bits p) - 1)) outcome,
              outcome_buffer := bitset_assign 0 outcome (push_bit 1 (outcome_buffer p))\<rparr>"
  have d1: "fold_defined ?p1" and g1: "ghist_bits ?p1 \<noteq> 0"
    using d g by simp_all
  from ok d have small: "folded_path p < 2 ^ width p" by (simp add: tracker_ok_def)
  have old: "bit (unset_bit 199 (outcome_buffer p)) (unat (ghist_bits p) - 1)
      = bit (outcome_buffer p) (unat (ghist_bits p) - 1)"
    using top config_words(7,8) [OF d g] by (auto simp: bit_unset_bit_iff)
  have fp: "fold_out (width p) (fold_position p)
        (fold_in (width p) (fold_position p) (folded_path p)
           (bit (outcome_buffer p) (unat (ghist_bits p) - 1)) outcome)
        outcome (bit (outcome_buffer p) (unat (ghist_bits p) - 1)) = folded_path p"
    using config_words(4,5) [OF d g] small by (rule fold_out_in)
  show ?thesis
    unfolding revertBranches_step_defined [OF d1 g1]
    by (simp add: buffer_pushed_dropped bit_buffer_pushed old fp
        del: push_bit_Suc One_nat_def drop_bit_Suc)
qed

lemma bit_buffer_addBranches:
  assumes "fold_defined p" "ghist_bits p \<noteq> 0" "addBranches outcomes p = Inr p'"
  shows "bit (outcome_buffer p') n \<longleftrightarrow>
     n < 200 \<and> (if n < length outcomes then rev outcomes ! n
                 else bit (outcome_buffer p) (n - length outcomes))"
  using assms
proof (induction outcomes arbitrary: p)
  case Nil
  then show ?case by (auto dest: bit_imp_le_length)
next
  case (Cons outcome outcomes)
  let ?p1 = "p\<lparr>folded_path := fold_in (width p) (fold_position p) (folded_path p)
                              (bit (outcome_buffer p) (unat (ghist_bits p) - 1)) outcome,
              outcome_buffer := bitset_assign 0 outcome (push_bit 1 (outcome_buffer p))\<rparr>"
  from Cons.prems have rest: "addBranches outcomes ?p1 = Inr p'"
    by (simp add: addBranch_cases)
  have d1: "fold_defined ?p1" and g1: "ghist_bits ?p1 \<noteq> 0"
    using Cons.prems by simp_all
  have "bit (outcome_buffer p') n \<longleftrightarrow>
     n < 200 \<and> (if n < length outcomes then rev outcomes ! n
                 else bit (outcome_buffer ?p1) (n - length outcomes))"
    using d1 g1 rest by (rule Cons.IH)
  moreover have "bit (outcome_buffer ?p1) (n - length outcomes) \<longleftrightarrow>
      (if n - length outcomes = 0 then outcome
       else n - length outcomes < 200 \<and> bit (outcome_buffer p) (n - length outcomes - 1))"
    by (simp add: bit_buffer_pushed del: push_bit_Suc One_nat_def)
  moreover have "rev (outcome # outcomes) ! n
      = (if n < length outcomes then rev outcomes ! n else outcome)" if "n \<le> length outcomes"
    using that by (auto simp: nth_append)
  ultimately show ?case
    by (cases "n < length outcomes"; cases "n = length outcomes") auto
qed

text \<open>
  Claim C7, as the code has it. Let a tracker be reached from construction by
  \<^verbatim>\<open>addBranch\<close> calls only. \<^verbatim>\<open>addBranch\<close> fails on it only where the source is undefined
  (\<open>ghist_bits\<close> not 0 and above 200, or a width \<open>index_size + tag_size\<close> of 0). Otherwise,
  when \<open>ghist_bits < 200\<close> or bit 199 of \<^verbatim>\<open>outcome_buffer\<close> is clear, \<^verbatim>\<open>addBranch(o)\<close>
  followed by \<^verbatim>\<open>revertBranches(1)\<close> restores \<^verbatim>\<open>folded_path\<close> and restores
  \<^verbatim>\<open>outcome_buffer\<close> except for bit 199, which the 200-bit shift register has lost. So
  the pair is the identity whenever bit 199 was clear, in particular after fewer than 200
  \<^verbatim>\<open>addBranch\<close> calls.
\<close>

theorem addBranch_revertBranches_roundtrip:
  assumes "PathTracker_new g i tg = Inr t0" and "addBranches outcomes t0 = Inr t"
  shows "case addBranch outcome t of
           Inl e \<Rightarrow> e = UndefinedBehaviour \<and> g \<noteq> 0 \<and> \<not> fold_defined t0
         | Inr t1 \<Rightarrow>
             (unat g < 200 \<or> \<not> bit (outcome_buffer t) 199 \<longrightarrow>
                revertBranches 1 t1 = Inr (t\<lparr>outcome_buffer := unset_bit 199 (outcome_buffer t)\<rparr>))
             \<and> (\<not> bit (outcome_buffer t) 199 \<longrightarrow> revertBranches 1 t1 = Inr t)
             \<and> (length outcomes < 200 \<longrightarrow> revertBranches 1 t1 = Inr t)"
proof -
  note new = tracker_ok_new [OF assms(1)]
  from new have ok0: "tracker_ok t0" by simp
  from addBranches_ok [OF ok0 assms(2)] have ok: "tracker_ok t" and cfg: "same_config t t0"
    by simp_all
  have gt: "ghist_bits t = g" using cfg new by (simp add: same_config_def)
  have dt: "fold_defined t = fold_defined t0" using cfg by (rule same_config_simps)
  show ?thesis
  proof (cases "g = 0 \<or> \<not> fold_defined t0")
    case True
    show ?thesis
    proof (cases "g = 0")
      case True
      with ok gt have "outcome_buffer t = 0" by (simp add: tracker_ok_def)
      with True gt show ?thesis
        by (simp add: addBranch_cases revertBranches_one)
    next
      case False
      with True gt dt show ?thesis
        by (simp add: addBranch_cases)
    qed
  next
    case False
    then have g: "ghist_bits t \<noteq> 0" and d: "fold_defined t" and d0: "fold_defined t0"
      and g0: "ghist_bits t0 \<noteq> 0"
      using gt dt new by simp_all
    have short: "\<not> bit (outcome_buffer t) 199" if "length outcomes < 200"
      using bit_buffer_addBranches [OF d0 g0 assms(2), of 199] new that by simp
    have clear: "t\<lparr>outcome_buffer := unset_bit 199 (outcome_buffer t)\<rparr> = t"
      if "\<not> bit (outcome_buffer t) 199"
    proof -
      have "unset_bit 199 (outcome_buffer t) = outcome_buffer t"
      proof (rule bit_word_eqI)
        fix n
        show "bit (unset_bit 199 (outcome_buffer t)) n = bit (outcome_buffer t) n"
          using that by (cases "n = 199") (simp_all add: bit_unset_bit_iff)
      qed
      then show ?thesis by simp
    qed
    have main: "revertBranches 1
           (t\<lparr>folded_path := fold_in (width t) (fold_position t) (folded_path t)
                              (bit (outcome_buffer t) (unat (ghist_bits t) - 1)) outcome,
              outcome_buffer := bitset_assign 0 outcome (push_bit 1 (outcome_buffer t))\<rparr>)
         = Inr (t\<lparr>outcome_buffer := unset_bit 199 (outcome_buffer t)\<rparr>)"
      if "unat g < 200 \<or> \<not> bit (outcome_buffer t) 199"
      using revert_after_add [OF ok d g] that gt g
      by (simp add: revertBranches_one)
    show ?thesis
      using g d main short clear
      by (auto simp: addBranch_cases simp del: push_bit_Suc One_nat_def)
  qed
qed


lemma addBranches_append:
  "addBranches (xs @ ys) p =
     (case addBranches xs p of Inl e \<Rightarrow> Inl e | Inr p' \<Rightarrow> addBranches ys p')"
  by (induction xs arbitrary: p) (auto split: sum.splits)

lemma tracker_5_2_3_config:
  "fold_defined (tracker_5_2_3 fp buf)" "ghist_bits (tracker_5_2_3 fp buf) \<noteq> 0"
  "width (tracker_5_2_3 fp buf) = 5" "fold_position (tracker_5_2_3 fp buf) = 0"
  "unat (ghist_bits (tracker_5_2_3 fp buf)) = 5"
  by (simp_all add: tracker_5_2_3_def fold_defined_def MAX_HIST_def width_def fold_position_def)

lemma addBranch_5_2_3:
  "addBranch outcome (tracker_5_2_3 fp buf)
     = Inr (tracker_5_2_3 (fold_in 5 0 fp (bit buf 4) outcome)
              (bitset_assign 0 outcome (push_bit 1 buf)))"
  by (simp add: addBranch_cases tracker_5_2_3_config del: push_bit_Suc One_nat_def)
     (simp add: tracker_5_2_3_def)

lemma first_steps:
  "addBranches [True, True] (tracker_5_2_3 0 0) = Inr (tracker_5_2_3 3 3)"
  "addBranch True (tracker_5_2_3 3 3) = Inr (tracker_5_2_3 7 7)"
  "revertBranches 1 (tracker_5_2_3 7 7) = Inr (tracker_5_2_3 3 3)"
  apply (simp_all add: addBranch_5_2_3 fold_in_def bitset_assign_def)
  apply (simp add: revertBranches_one revertBranches_step_defined tracker_5_2_3_config fold_out_def)
  apply (simp add: tracker_5_2_3_def)
  done


lemma pushed_power:
  assumes "n < 199"
  shows "bitset_assign 0 False (push_bit 1 (2 ^ n :: 200 word)) = 2 ^ Suc n"
proof (rule bit_word_eqI)
  fix k assume "k < LENGTH(200)"
  with assms show "bit (bitset_assign 0 False (push_bit 1 (2 ^ n :: 200 word))) k
      = bit (2 ^ Suc n :: 200 word) k"
    unfolding bit_buffer_pushed bit_exp_iff possible_bit_word
    by auto
qed

lemma addBranch_idle:
  assumes "5 \<le> n" "n < 199"
  shows "addBranch False (tracker_5_2_3 0 (2 ^ n)) = Inr (tracker_5_2_3 0 (2 ^ Suc n))"
proof -
  from assms have "\<not> bit (2 ^ n :: 200 word) 4" by (simp add: bit_exp_iff)
  then show ?thesis
    unfolding addBranch_5_2_3 pushed_power [OF assms(2)]
    by (simp add: fold_in_def)
qed

lemma addBranches_idle:
  "5 \<le> n \<Longrightarrow> n + k \<le> 199 \<Longrightarrow>
   addBranches (replicate k False) (tracker_5_2_3 0 (2 ^ n)) = Inr (tracker_5_2_3 0 (2 ^ (n + k)))"
proof (induction k arbitrary: n)
  case 0
  then show ?case by simp
next
  case (Suc k)
  from Suc.prems have "addBranch False (tracker_5_2_3 0 (2 ^ n)) = Inr (tracker_5_2_3 0 (2 ^ Suc n))"
    by (intro addBranch_idle) simp_all
  moreover from Suc.prems have "addBranches (replicate k False) (tracker_5_2_3 0 (2 ^ Suc n))
      = Inr (tracker_5_2_3 0 (2 ^ (Suc n + k)))"
    by (intro Suc.IH) simp_all
  ultimately show ?case by simp
qed

lemma six_steps:
  "addBranches [True, False, False, False, False, False] (tracker_5_2_3 0 0)
     = Inr (tracker_5_2_3 0 (2 ^ 5))"
  by (simp add: addBranch_5_2_3 fold_in_def bitset_assign_def)

lemma two_hundred_steps:
  "addBranches (True # replicate 199 False) (tracker_5_2_3 0 0) = Inr (tracker_5_2_3 0 (2 ^ 199))"
proof -
  have "replicate (5 + 194) False = replicate 5 False @ replicate 194 False"
    by (rule replicate_add)
  moreover have "replicate 5 False = [False, False, False, False, False]"
    by (simp add: numeral_eq_Suc)
  ultimately have "True # replicate 199 False
      = [True, False, False, False, False, False] @ replicate 194 False"
    by simp
  then show ?thesis
    using addBranches_idle [of 5 194]
    by (simp only: addBranches_append six_steps) simp
qed

text \<open>Claim C7 as stated fails on the tracker of the path folding test after one taken
  and 199 not-taken branches: bit 199 of \<^verbatim>\<open>outcome_buffer\<close> is set, and \<^verbatim>\<open>addBranch(true)\<close>
  followed by \<^verbatim>\<open>revertBranches(1)\<close> returns an empty buffer.\<close>

theorem addBranch_revertBranches_counterexample:
  "PathTracker_new 5 2 3 = Inr (tracker_5_2_3 0 0)
   \<and> addBranches (True # replicate 199 False) (tracker_5_2_3 0 0) = Inr (tracker_5_2_3 0 (2 ^ 199))
   \<and> addBranch True (tracker_5_2_3 0 (2 ^ 199)) = Inr (tracker_5_2_3 1 1)
   \<and> revertBranches 1 (tracker_5_2_3 1 1) = Inr (tracker_5_2_3 0 0)
   \<and> outcome_buffer (tracker_5_2_3 0 0) \<noteq> outcome_buffer (tracker_5_2_3 0 (2 ^ 199))"
proof -
  have new: "PathTracker_new 5 2 3 = Inr (tracker_5_2_3 0 0)"
    by (simp add: PathTracker_new_def tracker_5_2_3_def)
  have buf: "bitset_assign 0 True (push_bit 1 (2 ^ 199 :: 200 word)) = 1"
  proof (rule bit_word_eqI)
    fix k assume "k < LENGTH(200)"
    then show "bit (bitset_assign 0 True (push_bit 1 (2 ^ 199 :: 200 word))) k = bit (1 :: 200 word) k"
      unfolding bit_buffer_pushed bit_exp_iff bit_1_iff possible_bit_word
      by auto
  qed
  have add: "addBranch True (tracker_5_2_3 0 (2 ^ 199)) = Inr (tracker_5_2_3 1 1)"
    unfolding addBranch_5_2_3 buf by (simp add: fold_in_def bit_exp_iff)
  have rev: "revertBranches 1 (tracker_5_2_3 1 1) = Inr (tracker_5_2_3 0 0)"
    by (simp add: revertBranches_one revertBranches_step_defined tracker_5_2_3_config fold_out_def)
       (simp add: tracker_5_2_3_def)
  have ne: "outcome_buffer (tracker_5_2_3 0 0) \<noteq> outcome_buffer (tracker_5_2_3 0 (2 ^ 199))"
    by (simp add: tracker_5_2_3_def)
  from new two_hundred_steps add rev ne show ?thesis by simp
qed

theorem addBranch_revertBranches_roundtrip_witness:
  "PathTracker_new 5 2 3 = Inr (tracker_5_2_3 0 0)
   \<and> addBranches [True, True] (tracker_5_2_3 0 0) = Inr (tracker_5_2_3 3 3)
   \<and> addBranch True (tracker_5_2_3 3 3) = Inr (tracker_5_2_3 7 7)
   \<and> revertBranches 1 (tracker_5_2_3 7 7) = Inr (tracker_5_2_3 3 3)"
proof -
  have new: "PathTracker_new 5 2 3 = Inr (tracker_5_2_3 0 0)"
    by (simp add: PathTracker_new_def tracker_5_2_3_def)
  note roundtrip = addBranch_revertBranches_roundtrip [OF new first_steps(1), of True, unfolded first_steps(2) sum.case]
  from roundtrip [THEN conjunct2, THEN conjunct2]
  have "revertBranches 1 (tracker_5_2_3 7 7) = Inr (tracker_5_2_3 3 3)" by simp
  with new first_steps(1,2) show ?thesis by (simp only: simp_thms)
qed

section \<open>The update of the primary entry on a value commit\<close>

lemma entry_set_frame:
  "length (ep_components (entry_set st r e)) = length (ep_components st)"
  "branch_queue (entry_set st r e) = branch_queue st"
  "j \<noteq> fst r \<Longrightarrow> ep_components (entry_set st r e) ! j = ep_components st ! j"
  by (simp_all add: entry_set_def)

lemma entry_set_path:
  "path (ep_components (entry_set st r e) ! j) = path (ep_components st ! j)"
proof (cases "fst r < length (ep_components st)")
  case True
  then show ?thesis by (cases "j = fst r") (simp_all add: entry_set_def)
next
  case False
  then show ?thesis by (simp add: entry_set_def list_update_beyond)
qed

lemma entry_at_entry_set:
  assumes "i < length (ep_components st)" "k < length (components (ep_components st ! i))"
  shows "entry_at (entry_set st (i, k) e) (i, k) = e"
  using assms by (simp add: entry_at_def entry_set_def)

lemma onValueCommit_loop_append:
  "onValueCommit_loop pc w pd (xs @ ys) st l =
     (case onValueCommit_loop pc w pd xs st l of
        Inl e \<Rightarrow> Inl e
      | Inr (st1, l1) \<Rightarrow> onValueCommit_loop pc w pd ys st1 l1)"
  by (induction xs arbitrary: st l) (simp_all add: Let_def split: sum.splits option.splits)

lemma onValueCommit_loop_appendE:
  assumes "onValueCommit_loop pc w pd (xs @ ys) st l = Inr res"
  obtains st1 l1 where "onValueCommit_loop pc w pd xs st l = Inr (st1, l1)"
    and "onValueCommit_loop pc w pd ys st1 l1 = Inr res"
  using assms unfolding onValueCommit_loop_append
  by (auto split: sum.splits)

text \<open>One iteration either fails or continues with the state unchanged or with one entry of
  component \<open>i\<close> replaced.\<close>

lemma onValueCommit_loop_step:
  assumes "onValueCommit_loop pc w pd (i # rest) st l = Inr res"
  obtains (miss) "getEntry pc (ep_components st ! i) = Inr None"
      "onValueCommit_loop pc w pd rest st l = Inr res"
    | (keep) slot where "getEntry pc (ep_components st ! i) = Inr (Some slot)"
      "onValueCommit_loop pc w pd rest st i = Inr res"
    | (change) slot e where "getEntry pc (ep_components st ! i) = Inr (Some slot)"
      "onValueCommit_loop pc w pd rest (entry_set st (i, slot) e) i = Inr res"
  using assms
  by (auto simp: Let_def split: sum.splits option.splits if_splits)

lemma onValueCommit_loop_frame:
  assumes "onValueCommit_loop pc w pd xs st l = Inr (st1, l1)"
  shows "length (ep_components st1) = length (ep_components st)
       \<and> branch_queue st1 = branch_queue st
       \<and> (\<forall>j. j \<notin> set xs \<longrightarrow> ep_components st1 ! j = ep_components st ! j)
       \<and> (\<forall>j. path (ep_components st1 ! j) = path (ep_components st ! j))
       \<and> (l1 = l \<or> l1 \<in> set xs)"
  using assms
proof (induction xs arbitrary: st l)
  case Nil
  then show ?case by simp
next
  case (Cons i rest)
  from Cons.prems show ?case
  proof (cases rule: onValueCommit_loop_step)
    case miss
    from Cons.IH [OF miss(2)] show ?thesis by auto
  next
    case (keep slot)
    from Cons.IH [OF keep(2)] show ?thesis by auto
  next
    case (change slot e)
    from Cons.IH [OF change(2)] show ?thesis
      by (auto simp: entry_set_frame entry_set_path)
  qed
qed


lemma onValueCommit_loop_below_high_primary:
  assumes "primary pd = Some (p, slot)" "primary_index pd = p"
    and "getConfidence (entry_at st (p, slot)) = high"
    and "\<forall>i\<in>set xs. i < p"
    and "onValueCommit_loop pc w pd xs st l = Inr (st1, l1)"
  shows "st1 = st"
  using assms(4,5)
proof (induction xs arbitrary: l)
  case Nil
  then show ?case by simp
next
  case (Cons i rest)
  from Cons.prems(1) have i: "i < p" and rest: "\<forall>i\<in>set rest. i < p" by simp_all
  from Cons.prems(2) i assms(1,2,3)
  have "\<exists>l'. onValueCommit_loop pc w pd rest st l' = Inr (st1, l1)"
    by (auto simp: Let_def split: sum.splits option.splits if_splits)
  then obtain l' where "onValueCommit_loop pc w pd rest st l' = Inr (st1, l1)" ..
  with rest show ?case by (rule Cons.IH)
qed

lemma onValueCommit_loop_no_hits:
  assumes "\<forall>i\<in>set xs. getEntry pc (ep_components st ! i) = Inr None"
  shows "onValueCommit_loop pc w pd xs st l = Inr (st, l)"
  using assms by (induction xs) simp_all

lemma getPredictingEntries_loop_defined:
  assumes "getPredictingEntries_loop pc st xs r = Inr pd" "i \<in> set xs"
  shows "\<exists>x. getEntry pc (ep_components st ! i) = Inr x"
  using assms
  by (induction xs arbitrary: r) (auto split: sum.splits option.splits if_splits)

text \<open>The iteration at the primary.\<close>

lemma onValueCommit_loop_at_primary:
  assumes pd: "primary pd = Some (p, slot)" "primary_index pd = p"
    and hit: "getEntry pc (ep_components st1 ! p) = Inr (Some slot)"
    and same: "entry_at st1 (p, slot) = entry_at st (p, slot)"
    and high: "getConfidence (entry_at st (p, slot)) = high \<Longrightarrow> st1 = st"
  shows "onValueCommit_loop pc w pd [p] st1 l =
     (if p \<noteq> 0 \<and> alt pd = None then Inl AssertionFailure
      else Inr (entry_set st1 (p, slot)
             (if p = 0 \<or> getConfidence (entry_at st (p, slot)) \<noteq> high
                 \<or> (case alt pd of
                       None \<Rightarrow> False
                     | Some a \<Rightarrow> getConfidence (entry_at st a) \<noteq> high
                                  \<or> getDirection (entry_at st a) \<noteq> w)
              then update w (entry_at st (p, slot))
              else decay (entry_at st (p, slot))), p))"
proof (cases "getConfidence (entry_at st (p, slot)) = high")
  case True
  with high have st1: "st1 = st" by simp
  have conf: "confidence_value (getConfidence x) < 2
      \<longleftrightarrow> getConfidence x \<noteq> high" for x
    by (cases "getConfidence x") simp_all
  show ?thesis
    using pd hit True
    unfolding st1
    by (cases "alt pd") (auto simp: Let_def conf)
next
  case False
  then show ?thesis
    using pd hit same
    by (cases "alt pd") (auto simp: Let_def)
qed

lemma allocate_loop_frame:
  assumes "allocate_loop pc w xs st = Inr (st1, r)"
  shows "length (ep_components st1) = length (ep_components st)
       \<and> (\<forall>j. j \<notin> set xs \<longrightarrow> ep_components st1 ! j = ep_components st ! j)"
  using assms
  by (induction xs) (auto split: sum.splits if_splits)

lemma decay_loop_frame:
  assumes "decay_loop pc rnd k xs st = Inr st1"
  shows "length (ep_components st1) = length (ep_components st)
       \<and> (\<forall>j. j \<notin> set xs \<longrightarrow> ep_components st1 ! j = ep_components st ! j)"
  using assms
proof (induction xs arbitrary: st k)
  case Nil
  then show ?case by simp
next
  case (Cons i rest)
  from Cons.prems obtain st0 where
    "decay_loop pc rnd (Suc k) rest st0 = Inr st1"
    "length (ep_components st0) = length (ep_components st)"
    "\<forall>j. j \<noteq> i \<longrightarrow> ep_components st0 ! j = ep_components st ! j"
    by (auto simp: entry_set_frame split: sum.splits if_splits)
  with Cons.IH [of "Suc k" st0] show ?case by auto
qed


lemma getEntry_slot_bound:
  "getEntry pc c = Inr (Some slot) \<Longrightarrow> slot < length (components c)"
  by (auto simp: getEntry_def getEntryConflict_def split: sum.splits if_splits)

lemma upt_split_at:
  "p < n \<Longrightarrow> [0..<n] = [0..<p] @ [p] @ [Suc p..<n]"
proof -
  assume "p < n"
  then have "[0..<n] = [0..<p] @ [p..<n]"
    using upt_add_eq_append [of 0 p "n - p"] by simp
  moreover from \<open>p < n\<close> have "[p..<n] = p # [Suc p..<n]"
    by (rule upt_conv_Cons)
  ultimately show ?thesis by simp
qed

text \<open>
  The iteration at the primary within the whole call. Let \<^verbatim>\<open>getPredictingEntries\<close> return
  a primary, in component \<open>i\<close>. When \<open>i > 0\<close> and there is no alternate, the call fails the
  assertion \<^verbatim>\<open>i==0 || pd.alt.has_value()\<close>. When the call returns, the primary entry has
  received \<^verbatim>\<open>update(outcome)\<close> if \<open>i = 0\<close>, or its confidence was below high, or the
  alternate's confidence was below high, or the alternate's direction differed from the
  outcome; and \<^verbatim>\<open>decay()\<close> otherwise.
\<close>

lemma onValueCommit_at_primary:
  assumes gpe: "getPredictingEntries pc st = Inr pd" and prim: "primary pd = Some r"
  shows "(primary_index pd > 0 \<and> alt pd = None \<longrightarrow>
            onValueCommit pc wasEqual rnd st = Inl AssertionFailure)
       \<and> (\<forall>st'. onValueCommit pc wasEqual rnd st = Inr st' \<longrightarrow>
            entry_at st' r =
              (if primary_index pd = 0 \<or> getConfidence (entry_at st r) \<noteq> high
                  \<or> (case alt pd of
                        None \<Rightarrow> False
                      | Some a \<Rightarrow> getConfidence (entry_at st a) \<noteq> high
                                   \<or> getDirection (entry_at st a) \<noteq> wasEqual)
               then update wasEqual (entry_at st r)
               else decay (entry_at st r)))"
proof -
  define n where "n = length (ep_components st)"
  define p where "p = primary_index pd"
  define slot where "slot = snd r"
  have sel: "selected pc st n pd"
    using gpe unfolding getPredictingEntries_def n_def by (rule selected_upto)
  from sel prim have "fst r = p" and pn: "p < n"
    and hit: "getEntry pc (ep_components st ! p) = Inr (Some slot)"
    by (simp_all add: selected_def p_def slot_def)
  then have r: "r = (p, slot)"
    by (cases r) (simp add: slot_def)
  have pd: "primary pd = Some (p, slot)" "primary_index pd = p"
    using prim r by (simp_all add: p_def)
  have split: "[0..<n] = [0..<p] @ [p] @ [Suc p..<n]"
    using pn by (rule upt_split_at)
  let ?e' = "if p = 0 \<or> getConfidence (entry_at st (p, slot)) \<noteq> high
                 \<or> (case alt pd of
                       None \<Rightarrow> False
                     | Some a \<Rightarrow> getConfidence (entry_at st a) \<noteq> high
                                  \<or> getDirection (entry_at st a) \<noteq> wasEqual)
              then update wasEqual (entry_at st (p, slot))
              else decay (entry_at st (p, slot))"

  have fails: "onValueCommit pc wasEqual rnd st = Inl AssertionFailure"
    if "p > 0" "alt pd = None"
  proof -
    have "getEntry pc (ep_components st ! q) = Inr None" if "q < p" for q
    proof -
      from sel prim \<open>alt pd = None\<close> that have "hit_confidence pc st q = None"
        by (simp add: selected_def p_def)
      moreover from that pn have "q \<in> set [0..<length (ep_components st)]"
        by (simp add: n_def)
      with gpe have "\<exists>x. getEntry pc (ep_components st ! q) = Inr x"
        unfolding getPredictingEntries_def by (rule getPredictingEntries_loop_defined)
      ultimately show ?thesis
        by (auto simp: hit_confidence_def split: option.splits)
    qed
    then have "onValueCommit_loop pc wasEqual pd [0..<p] st 0 = Inr (st, 0)"
      by (intro onValueCommit_loop_no_hits) simp
    moreover have "onValueCommit_loop pc wasEqual pd [p] st 0 = Inl AssertionFailure"
      unfolding onValueCommit_loop_at_primary [OF pd hit refl refl]
      using that by simp
    ultimately have "onValueCommit_loop pc wasEqual pd [0..<n] st 0 = Inl AssertionFailure"
      unfolding split by (simp only: onValueCommit_loop_append sum.case prod.case)
    with gpe show ?thesis
      by (simp add: onValueCommit_def n_def)
  qed

  have updates: "entry_at st' (p, slot) = ?e'"
    if commit: "onValueCommit pc wasEqual rnd st = Inr st'" for st'
  proof -
    from commit gpe obtain stL lng where
      loop: "onValueCommit_loop pc wasEqual pd [0..<n] st 0 = Inr (stL, lng)"
      by (auto simp: onValueCommit_def n_def Let_def split: sum.splits)
    from loop [unfolded split] obtain st1 l1 where
      pre: "onValueCommit_loop pc wasEqual pd [0..<p] st 0 = Inr (st1, l1)"
      and post: "onValueCommit_loop pc wasEqual pd ([p] @ [Suc p..<n]) st1 l1 = Inr (stL, lng)"
      by (rule onValueCommit_loop_appendE)
    from post obtain st2 l2 where
      at: "onValueCommit_loop pc wasEqual pd [p] st1 l1 = Inr (st2, l2)"
      and suf: "onValueCommit_loop pc wasEqual pd [Suc p..<n] st2 l2 = Inr (stL, lng)"
      by (rule onValueCommit_loop_appendE)
    note f1 = onValueCommit_loop_frame [OF pre]
    from f1 have len1: "length (ep_components st1) = n"
      and comp1: "ep_components st1 ! p = ep_components st ! p"
      by (simp_all add: n_def)
    have hit1: "getEntry pc (ep_components st1 ! p) = Inr (Some slot)"
      using hit comp1 by simp
    have same1: "entry_at st1 (p, slot) = entry_at st (p, slot)"
      using comp1 by (simp add: entry_at_def)
    have high1: "st1 = st" if "getConfidence (entry_at st (p, slot)) = high"
      using pd that _ pre by (rule onValueCommit_loop_below_high_primary) simp
    define e' where "e' = ?e'"
    have step: "onValueCommit_loop pc wasEqual pd [p] st1 l1 =
       (if p \<noteq> 0 \<and> alt pd = None then Inl AssertionFailure
        else Inr (entry_set st1 (p, slot) e', p))"
      unfolding e'_def
      using pd hit1 same1 high1 by (rule onValueCommit_loop_at_primary)
    from at have "(if p \<noteq> 0 \<and> alt pd = None then Inl AssertionFailure
        else Inr (entry_set st1 (p, slot) e', p)) = Inr (st2, l2)"
      by (simp only: step)
    then have "st2 = entry_set st1 (p, slot) e'" and l2: "l2 = p"
      by (auto split: if_splits)
    then have st2: "st2 = entry_set st1 (p, slot) ?e'"
      by (simp only: e'_def)
    have slot: "slot < length (components (ep_components st1 ! p))"
      using hit1 by (rule getEntry_slot_bound)
    have e2: "entry_at st2 (p, slot) = ?e'"
      unfolding st2 using pn len1 slot by (intro entry_at_entry_set) simp_all
    note fL = onValueCommit_loop_frame [OF suf]
    from fL have compL: "ep_components stL ! p = ep_components st2 ! p"
      and lng: "p \<le> lng"
      by (auto simp: l2)
    have "ep_components st' ! p = ep_components stL ! p"
    proof (cases "(case primary pd of None \<Rightarrow> False | Some r \<Rightarrow> getDirection (entry_at st r))
                    \<noteq> wasEqual")
      case False
      with commit gpe loop show ?thesis
        by (simp add: onValueCommit_def n_def Let_def)
    next
      case True
      with commit gpe loop obtain stA rr where
        al: "allocate_loop pc wasEqual [lng + 1..<length (ep_components stL)] stL = Inr (stA, rr)"
        and de: "decay_loop pc rnd 0 [lng + 1..<rr] stA = Inr st'"
        by (auto simp: onValueCommit_def n_def Let_def split: sum.splits)
      from allocate_loop_frame [OF al] lng have "ep_components stA ! p = ep_components stL ! p"
        by simp
      moreover from decay_loop_frame [OF de] lng have "ep_components st' ! p = ep_components stA ! p"
        by simp
      ultimately show ?thesis by simp
    qed
    with compL have "entry_at st' (p, slot) = entry_at st2 (p, slot)"
      by (simp add: entry_at_def)
    with e2 show ?thesis by simp
  qed
  have "(p > 0 \<and> alt pd = None \<longrightarrow>
            onValueCommit pc wasEqual rnd st = Inl AssertionFailure)
       \<and> (\<forall>st'. onValueCommit pc wasEqual rnd st = Inr st' \<longrightarrow>
            entry_at st' (p, slot) = ?e')"
    using fails updates by blast
  then show ?thesis
    unfolding r p_def .
qed


lemmas lookup_defs = getEntry_def getEntryConflict_def getTag_def getIndex_def combined_def
  entry_at_def entry_set_def

lemma upt_0_2: "[0..<2] = [0, 1]"
  by (simp add: numeral_2_eq_2)

lemma replicate_2: "replicate 2 x = [x, x]"
  by (simp add: numeral_2_eq_2)

lemma onValueCommit_two_hits:
  "onValueCommit 2 True (\<lambda>k. 0) two_hits = Inr two_hits_decayed"
  by (simp add: onValueCommit_def getPredictingEntries_two_hits)
     (simp add: two_hits_def two_hits_decayed_def lookup_defs upt_0_2 getConfidence_def
        getDirection_def decay_def)

lemma entry_set_table_length:
  "length (components (ep_components (entry_set st r e) ! j))
     = length (components (ep_components st ! j))"
proof (cases "fst r < length (ep_components st)")
  case True
  then show ?thesis by (cases "j = fst r") (simp_all add: entry_set_def)
next
  case False
  then show ?thesis by (simp add: entry_set_def list_update_beyond)
qed

lemma lookups_defined_cong:
  assumes "length (ep_components st') = length (ep_components st)"
    and "\<And>j. j < length (ep_components st) \<Longrightarrow>
           path (ep_components st' ! j) = path (ep_components st ! j)
           \<and> length (components (ep_components st' ! j)) = length (components (ep_components st ! j))"
    and "lookups_defined st"
  shows "lookups_defined st'"
  using assms by (simp add: lookups_defined_def list_all_length lookup_defined_def)

lemma lookups_defined_entry_set:
  "lookups_defined st \<Longrightarrow> lookups_defined (entry_set st r e)"
  by (rule lookups_defined_cong [of _ st])
     (simp_all add: entry_set_frame entry_set_path entry_set_table_length)

lemma base_hit:
  assumes "lookups_defined st" "base_always_hits st"
  shows "0 < length (ep_components st)
       \<and> (\<exists>slot. getEntry pc (ep_components st ! 0) = Inr (Some slot))"
proof -
  from assms(2) obtain c cs where cs: "ep_components st = c # cs"
    and t: "tag_size (path c) = 0" and z: "list_all (\<lambda>e. tag e = 0) (components c)"
    by (auto simp: base_always_hits_def split: list.splits)
  from assms(1) cs have ld: "lookup_defined c"
    by (simp add: lookups_defined_def)
  from getEntryConflict_defined [OF ld] obtain slot where
    slot: "getEntryConflict pc c = Inr slot" "slot < length (components c)" by blast
  from z slot(2) have "tag (components c ! slot) = 0"
    by (simp add: list_all_length)
  moreover from ld t have "getTag pc (path c) = Inr 0"
    by (simp add: getTag_def lookup_defined_def)
  ultimately have "getEntry pc c = Inr (Some slot)"
    using slot(1) by (simp add: getEntry_def)
  with cs show ?thesis by simp
qed

lemma onValueCommit_loop_lookups:
  assumes "onValueCommit_loop pc w pd xs st l = Inr (st1, l1)" "lookups_defined st"
  shows "lookups_defined st1"
  using assms
proof (induction xs arbitrary: st l)
  case Nil
  then show ?case by simp
next
  case (Cons i rest)
  from Cons.prems(1) show ?case
  proof (cases rule: onValueCommit_loop_step)
    case miss
    from Cons.IH [OF miss(2) Cons.prems(2)] show ?thesis .
  next
    case (keep slot)
    from Cons.IH [OF keep(2) Cons.prems(2)] show ?thesis .
  next
    case (change slot e)
    from Cons.IH [OF change(2) lookups_defined_entry_set [OF Cons.prems(2)]] show ?thesis .
  qed
qed

lemma onValueCommit_loop_total:
  assumes "primary_index pd = 0 \<or> alt pd \<noteq> None" "alt pd \<noteq> None \<longrightarrow> primary pd \<noteq> None"
  shows "lookups_defined st \<Longrightarrow> \<forall>i\<in>set xs. i < length (ep_components st)
     \<Longrightarrow> \<not> isl (onValueCommit_loop pc w pd xs st l)"
proof (induction xs arbitrary: st l)
  case Nil
  then show ?case by simp
next
  case (Cons i rest)
  from Cons.prems have "lookup_defined (ep_components st ! i)"
    by (simp add: lookups_definedD)
  then obtain x where x: "getEntry pc (ep_components st ! i) = Inr x"
    using getEntry_defined by blast
  from Cons.prems have rest: "\<forall>i\<in>set rest. i < length (ep_components st)" by simp
  have keep: "isl (onValueCommit_loop pc w pd rest st l0) = False" for l0
    using Cons.IH [OF Cons.prems(1) rest] by simp
  have change: "isl (onValueCommit_loop pc w pd rest (entry_set st (i, slot) e0) l0) = False"
    for l0 e0 slot
    using Cons.IH [OF lookups_defined_entry_set [OF Cons.prems(1)], of "(i, slot)" e0 l0] rest
    by (simp add: entry_set_frame)
  show ?case
  proof (cases x)
    case None
    with x keep show ?thesis by simp
  next
    case (Some slot)
    from assms consider (base) "primary_index pd = 0" "alt pd = None"
      | (both) a r where "alt pd = Some a" "primary pd = Some r"
      by (cases "alt pd"; cases "primary pd") auto
    then show ?thesis
    proof cases
      case base
      with x Some keep change show ?thesis
        by (auto simp: Let_def)
    next
      case both
      with x Some keep change show ?thesis
        by (auto simp: Let_def)
    qed
  qed
qed

lemma allocate_defined:
  assumes "lookup_defined c"
  shows "\<exists>c'. allocate pc w c = Inr c' \<and> path c' = path c
           \<and> length (components c') = length (components c)"
proof -
  from getEntryConflict_defined [OF assms, of pc] obtain index where
    "getIndex pc (path c) = Inr index" "unat index < length (components c)"
    by (auto simp: getEntryConflict_def split: sum.splits if_splits)
  moreover from assms have "\<exists>tg. getTag pc (path c) = Inr tg"
    by (simp add: getTag_def lookup_defined_def)
  ultimately show ?thesis
    by (auto simp: allocate_def)
qed

lemma lookups_defined_component_update:
  assumes "lookups_defined st" "path c' = path (ep_components st ! i)"
    "length (components c') = length (components (ep_components st ! i))"
  shows "lookups_defined (st\<lparr>ep_components := (ep_components st)[i := c']\<rparr>)"
proof (rule lookups_defined_cong [OF _ _ assms(1)])
  show "length (ep_components (st\<lparr>ep_components := (ep_components st)[i := c']\<rparr>))
      = length (ep_components st)" by simp
next
  fix j assume "j < length (ep_components st)"
  with assms(2,3)
  show "path (ep_components (st\<lparr>ep_components := (ep_components st)[i := c']\<rparr>) ! j)
          = path (ep_components st ! j)
      \<and> length (components (ep_components (st\<lparr>ep_components := (ep_components st)[i := c']\<rparr>) ! j))
          = length (components (ep_components st ! j))"
    by (cases "j = i") simp_all
qed

lemma allocate_loop_total:
  assumes "lookups_defined st"
  shows "\<exists>st2 r. allocate_loop pc w [s..<length (ep_components st)] st = Inr (st2, r)
           \<and> lookups_defined st2
           \<and> length (ep_components st2) = length (ep_components st)
           \<and> r \<le> length (ep_components st)
           \<and> (\<forall>j. s \<le> j \<and> j < r \<longrightarrow> conflict_high pc (ep_components st2 ! j))"
proof (induction "length (ep_components st) - s" arbitrary: s)
  case 0
  then have "[s..<length (ep_components st)] = []" by simp
  with assms 0 show ?case by auto
next
  case (Suc d)
  then have s: "s < length (ep_components st)" by simp
  then have list: "[s..<length (ep_components st)] = s # [Suc s..<length (ep_components st)]"
    by (rule upt_conv_Cons)
  from assms s have ld: "lookup_defined (ep_components st ! s)"
    by (rule lookups_definedD)
  from getEntryConflict_defined [OF ld] obtain slot where
    slot: "getEntryConflict pc (ep_components st ! s) = Inr slot" by blast
  show ?case
  proof (cases "getConfidence (entry_at st (s, slot)) = high")
    case False
    from allocate_defined [OF ld] obtain c' where
      c': "allocate pc w (ep_components st ! s) = Inr c'" "path c' = path (ep_components st ! s)"
      "length (components c') = length (components (ep_components st ! s))" by blast
    have "lookups_defined (st\<lparr>ep_components := (ep_components st)[s := c']\<rparr>)"
      using assms c'(2,3) by (rule lookups_defined_component_update)
    with False slot c'(1) s show ?thesis
      unfolding list by auto
  next
    case True
    from Suc(2) have "d = length (ep_components st) - Suc s" by simp
    from Suc(1) [OF this] obtain st2 r where
      al: "allocate_loop pc w [Suc s..<length (ep_components st)] st = Inr (st2, r)"
      and rest: "lookups_defined st2" "length (ep_components st2) = length (ep_components st)"
        "r \<le> length (ep_components st)"
        "\<forall>j. Suc s \<le> j \<and> j < r \<longrightarrow> conflict_high pc (ep_components st2 ! j)"
      by blast
    from allocate_loop_frame [OF al] have "ep_components st2 ! s = ep_components st ! s"
      by simp
    with True slot have "conflict_high pc (ep_components st2 ! s)"
      by (simp add: conflict_high_def entry_at_def)
    with rest(4) have "\<forall>j. s \<le> j \<and> j < r \<longrightarrow> conflict_high pc (ep_components st2 ! j)"
      by (metis Suc_leI le_neq_implies_less)
    with True slot al rest(1,2,3) show ?thesis
      unfolding list by simp
  qed
qed

lemma decay_loop_total:
  "lookups_defined st \<Longrightarrow> distinct xs
   \<Longrightarrow> \<forall>j\<in>set xs. j < length (ep_components st) \<and> conflict_high pc (ep_components st ! j)
   \<Longrightarrow> \<exists>st'. decay_loop pc rnd k xs st = Inr st' \<and> lookups_defined st'"
proof (induction xs arbitrary: st k)
  case Nil
  then show ?case by simp
next
  case (Cons i rest)
  from Cons.prems(3) obtain slot where
    slot: "getEntryConflict pc (ep_components st ! i) = Inr slot"
    and hi: "getConfidence (entry_at st (i, slot)) = high"
    by (auto simp: conflict_high_def entry_at_def split: sum.splits)
  from Cons.prems have d: "distinct rest" and ni: "i \<notin> set rest" by simp_all
  let ?st1 = "entry_set st (i, slot) (decay (entry_at st (i, slot)))"
  have a: "\<exists>st'. decay_loop pc rnd (Suc k) rest st = Inr st' \<and> lookups_defined st'"
    using Cons.prems(1) d Cons.prems(3) by (intro Cons.IH) simp_all
  have same: "ep_components ?st1 ! j = ep_components st ! j" if "j \<in> set rest" for j
    using that ni by (intro entry_set_frame(3)) auto
  have "\<forall>j\<in>set rest. j < length (ep_components ?st1)
          \<and> conflict_high pc (ep_components ?st1 ! j)"
    using Cons.prems(3) by (simp add: entry_set_frame(1) same)
  with lookups_defined_entry_set [OF Cons.prems(1)] d
  have b: "\<exists>st'. decay_loop pc rnd (Suc k) rest ?st1 = Inr st' \<and> lookups_defined st'"
    by (intro Cons.IH) simp_all
  from slot hi a b show ?case by simp
qed

lemma getPredictingEntries_base_hit:
  assumes gpe: "getPredictingEntries pc st = Inr pd"
    and ld: "lookups_defined st" and base: "base_always_hits st"
  shows "(\<exists>r. primary pd = Some r) \<and> (primary_index pd = 0 \<or> alt pd \<noteq> None)"
proof -
  from base_hit [OF ld base, of pc] obtain slot where
    n: "0 < length (ep_components st)"
    and hit: "getEntry pc (ep_components st ! 0) = Inr (Some slot)" by blast
  then have h0: "hit_confidence pc st 0 \<noteq> None"
    by (simp add: hit_confidence_def)
  have sel: "selected pc st (length (ep_components st)) pd"
    using gpe unfolding getPredictingEntries_def by (rule selected_upto)
  show ?thesis
  proof (cases "primary pd")
    case None
    with sel n h0 show ?thesis by (auto simp: selected_def)
  next
    case (Some r)
    show ?thesis
    proof (cases "alt pd")
      case None
      with sel Some have "\<forall>q<primary_index pd. hit_confidence pc st q = None"
        by (simp add: selected_def)
      with h0 have "primary_index pd = 0" by (cases "primary_index pd") auto
      with Some show ?thesis by simp
    next
      case (Some a)
      with \<open>primary pd = Some r\<close> show ?thesis by simp
    qed
  qed
qed

lemma onValueCommit_total:
  assumes ld: "lookups_defined st" and base: "base_always_hits st"
  shows "\<exists>pd r st'. getPredictingEntries pc st = Inr pd \<and> primary pd = Some r
           \<and> onValueCommit pc wasEqual rnd st = Inr st' \<and> lookups_defined st'"
proof -
  from getPredictingEntries_total [OF ld] obtain pd where
    gpe: "getPredictingEntries pc st = Inr pd" by blast
  from getPredictingEntries_base_hit [OF gpe ld base] obtain r where
    r: "primary pd = Some r" and c1: "primary_index pd = 0 \<or> alt pd \<noteq> None" by blast
  from r have c2: "alt pd \<noteq> None \<longrightarrow> primary pd \<noteq> None" by simp
  have "\<not> isl (onValueCommit_loop pc wasEqual pd [0..<length (ep_components st)] st 0)"
    using c1 c2 ld by (rule onValueCommit_loop_total) simp
  then obtain st1 lng where
    loop: "onValueCommit_loop pc wasEqual pd [0..<length (ep_components st)] st 0 = Inr (st1, lng)"
    by (cases "onValueCommit_loop pc wasEqual pd [0..<length (ep_components st)] st 0") auto
  from onValueCommit_loop_lookups [OF loop ld] have ld1: "lookups_defined st1" .
  show ?thesis
  proof (cases "getDirection (entry_at st r) \<noteq> wasEqual")
    case False
    with gpe r loop ld1 show ?thesis
      by (simp add: onValueCommit_def)
  next
    case True
    from allocate_loop_total [OF ld1, of pc wasEqual "lng + 1"] obtain st2 rr where
      al: "allocate_loop pc wasEqual [lng + 1..<length (ep_components st1)] st1 = Inr (st2, rr)"
      and ld2: "lookups_defined st2"
      and len: "length (ep_components st2) = length (ep_components st1)"
        "rr \<le> length (ep_components st1)"
      and hi: "\<forall>j. lng + 1 \<le> j \<and> j < rr \<longrightarrow> conflict_high pc (ep_components st2 ! j)"
      by blast
    have "\<exists>st'. decay_loop pc rnd 0 [lng + 1..<rr] st2 = Inr st' \<and> lookups_defined st'"
      using ld2 by (rule decay_loop_total) (use len hi in auto)
    then obtain st' where "decay_loop pc rnd 0 [lng + 1..<rr] st2 = Inr st'"
      "lookups_defined st'" by blast
    with True gpe r loop al show ?thesis
      by (simp add: onValueCommit_def)
  qed
qed

lemma base_always_hits_iff:
  "base_always_hits st \<longleftrightarrow>
     ep_components st \<noteq> [] \<and> tag_size (path (ep_components st ! 0)) = 0
     \<and> list_all (\<lambda>e. tag e = 0) (components (ep_components st ! 0))"
  by (cases "ep_components st") (simp_all add: base_always_hits_def)

lemma tag_update [simp]: "tag (update w e) = tag e"
  by (simp add: update_def)

lemma tag_decay [simp]: "tag (decay e) = tag e"
  by (simp add: decay_def Let_def)

lemma base_always_hits_entry_set:
  assumes "base_always_hits st" "tag e = tag (entry_at st (i, slot))"
    and "i < length (ep_components st)" "slot < length (components (ep_components st ! i))"
  shows "base_always_hits (entry_set st (i, slot) e)"
proof (cases "i = 0")
  case False
  then have "ep_components (entry_set st (i, slot) e) ! 0 = ep_components st ! 0"
    by (simp add: entry_set_frame)
  moreover have "ep_components (entry_set st (i, slot) e) \<noteq> []"
    using assms(3) entry_set_frame(1) [of st "(i, slot)" e] by auto
  ultimately show ?thesis
    using assms(1) by (simp add: base_always_hits_iff)
next
  case True
  from assms(1) have z: "list_all (\<lambda>e. tag e = 0) (components (ep_components st ! 0))"
    and t: "tag_size (path (ep_components st ! 0)) = 0"
    by (simp_all add: base_always_hits_iff)
  from z assms(2,4) True have "tag e = 0"
    by (simp add: list_all_length entry_at_def)
  with z assms(4) True
  have "list_all (\<lambda>e. tag e = 0) ((components (ep_components st ! 0))[slot := e])"
    by (auto simp: list_all_length nth_list_update)
  with t assms(3) True show ?thesis
    by (simp add: base_always_hits_iff entry_set_def)
qed

lemma onValueCommit_loop_step_entry:
  assumes "onValueCommit_loop pc w pd (i # rest) st l = Inr res"
  obtains (miss) "getEntry pc (ep_components st ! i) = Inr None"
      "onValueCommit_loop pc w pd rest st l = Inr res"
    | (keep) slot where "getEntry pc (ep_components st ! i) = Inr (Some slot)"
      "onValueCommit_loop pc w pd rest st i = Inr res"
    | (change) slot e where "getEntry pc (ep_components st ! i) = Inr (Some slot)"
      "tag e = tag (entry_at st (i, slot))"
      "onValueCommit_loop pc w pd rest (entry_set st (i, slot) e) i = Inr res"
proof -
  have t: "tag (update w (entry_at st (i, slot))) = tag (entry_at st (i, slot))"
    "tag (decay (entry_at st (i, slot))) = tag (entry_at st (i, slot))" for slot
    by simp_all
  from assms show ?thesis
    using miss keep change [OF _ t(1)] change [OF _ t(2)]
    by (auto simp: Let_def split: sum.splits option.splits if_splits)
qed

lemma onValueCommit_loop_base:
  "onValueCommit_loop pc w pd xs st l = Inr (st1, l1) \<Longrightarrow> base_always_hits st
   \<Longrightarrow> \<forall>i\<in>set xs. i < length (ep_components st) \<Longrightarrow> base_always_hits st1"
proof (induction xs arbitrary: st l)
  case Nil
  then show ?case by simp
next
  case (Cons i rest)
  from Cons.prems(3) have i: "i < length (ep_components st)"
    and rest: "\<forall>i\<in>set rest. i < length (ep_components st)" by simp_all
  from Cons.prems(1) show ?case
  proof (cases rule: onValueCommit_loop_step_entry)
    case miss
    from Cons.IH [OF miss(2) Cons.prems(2) rest] show ?thesis .
  next
    case (keep slot)
    from Cons.IH [OF keep(2) Cons.prems(2) rest] show ?thesis .
  next
    case (change slot e)
    from change(1) have "slot < length (components (ep_components st ! i))"
      by (rule getEntry_slot_bound)
    with Cons.prems(2) change(2) i have "base_always_hits (entry_set st (i, slot) e)"
      by (intro base_always_hits_entry_set)
    from Cons.IH [OF change(3) this] rest show ?thesis
      by (simp add: entry_set_frame)
  qed
qed

lemma onValueCommit_base:
  assumes commit: "onValueCommit pc w rnd st = Inr st'" and base: "base_always_hits st"
  shows "base_always_hits st'"
proof -
  from commit obtain pd where pd: "getPredictingEntries pc st = Inr pd"
    by (auto simp: onValueCommit_def split: sum.splits)
  with commit obtain stL lng where
    loop: "onValueCommit_loop pc w pd [0..<length (ep_components st)] st 0 = Inr (stL, lng)"
    by (auto simp: onValueCommit_def Let_def split: sum.splits)
  from loop base have bL: "base_always_hits stL"
    by (rule onValueCommit_loop_base) simp
  from commit pd loop have "st' = stL \<or> (\<exists>stA r. allocate_loop pc w
                 [lng + 1..<length (ep_components stL)] stL = Inr (stA, r)
               \<and> decay_loop pc rnd 0 [lng + 1..<r] stA = Inr st')"
    by (auto simp: onValueCommit_def Let_def split: sum.splits if_splits)
  then show ?thesis
  proof
    assume "st' = stL"
    with bL show ?thesis by simp
  next
    assume "\<exists>stA r. allocate_loop pc w [lng + 1..<length (ep_components stL)] stL = Inr (stA, r)
               \<and> decay_loop pc rnd 0 [lng + 1..<r] stA = Inr st'"
    then obtain stA r where
      al: "allocate_loop pc w [lng + 1..<length (ep_components stL)] stL = Inr (stA, r)"
      and de: "decay_loop pc rnd 0 [lng + 1..<r] stA = Inr st'" by blast
    from allocate_loop_frame [OF al] decay_loop_frame [OF de]
    have "length (ep_components st') = length (ep_components stL)"
      "ep_components st' ! 0 = ep_components stL ! 0"
      by simp_all
    with bL show ?thesis
      by (auto simp: base_always_hits_iff)
  qed
qed

lemma addBranch_widths:
  "addBranch outcome p = Inr p' \<Longrightarrow> index_size p' = index_size p \<and> tag_size p' = tag_size p"
  by (auto simp: addBranch_cases split: if_splits)

lemma revertBranches_step_widths:
  "revertBranches_step p = Inr p' \<Longrightarrow> index_size p' = index_size p \<and> tag_size p' = tag_size p"
  by (auto simp: revertBranches_step_def Let_def split: if_splits)

lemma revertBranches_loop_widths:
  "revertBranches_loop n p = Inr p' \<Longrightarrow> index_size p' = index_size p \<and> tag_size p' = tag_size p"
proof (induction n arbitrary: p)
  case 0
  then show ?case by simp
next
  case (Suc n)
  from Suc.prems obtain p1 where "revertBranches_step p = Inr p1"
    "revertBranches_loop n p1 = Inr p'"
    by (auto split: sum.splits)
  with Suc.IH [of p1] revertBranches_step_widths [of p p1] show ?case by simp
qed

lemma revertBranches_widths:
  "revertBranches num p = Inr p' \<Longrightarrow> index_size p' = index_size p \<and> tag_size p' = tag_size p"
  by (auto simp: revertBranches_def dest: revertBranches_loop_widths split: if_splits)

lemma addBranch_all_tables:
  "addBranch_all outcome cs = Inr cs' \<Longrightarrow>
   list_all2 (\<lambda>c c'. components c' = components c
                \<and> index_size (path c') = index_size (path c)
                \<and> tag_size (path c') = tag_size (path c)) cs cs'"
proof (induction cs arbitrary: cs')
  case Nil
  then show ?case by simp
next
  case (Cons c cs)
  from Cons.prems obtain p rest where
    "addBranch outcome (path c) = Inr p" "addBranch_all outcome cs = Inr rest"
    "cs' = c\<lparr>path := p\<rparr> # rest"
    by (auto simp: component_addBranch_def split: sum.splits)
  with Cons.IH [of rest] addBranch_widths [of outcome "path c" p] show ?case by simp
qed

lemma revertBranches_all_tables:
  "revertBranches_all num cs = Inr cs' \<Longrightarrow>
   list_all2 (\<lambda>c c'. components c' = components c
                \<and> index_size (path c') = index_size (path c)
                \<and> tag_size (path c') = tag_size (path c)) cs cs'"
proof (induction cs arbitrary: cs')
  case Nil
  then show ?case by simp
next
  case (Cons c cs)
  from Cons.prems obtain p rest where
    "revertBranches num (path c) = Inr p" "revertBranches_all num cs = Inr rest"
    "cs' = c\<lparr>path := p\<rparr> # rest"
    by (auto simp: component_revertBranches_def split: sum.splits)
  with Cons.IH [of rest] revertBranches_widths [of num "path c" p] show ?case by simp
qed

lemma invariants_same_tables:
  assumes "list_all2 (\<lambda>c c'. components c' = components c
                \<and> index_size (path c') = index_size (path c)
                \<and> tag_size (path c') = tag_size (path c)) (ep_components st) (ep_components st')"
    and "lookups_defined st" "base_always_hits st"
  shows "lookups_defined st' \<and> base_always_hits st'"
proof -
  from assms(1) have len: "length (ep_components st') = length (ep_components st)"
    and nth: "\<And>j. j < length (ep_components st) \<Longrightarrow>
        components (ep_components st' ! j) = components (ep_components st ! j)
        \<and> index_size (path (ep_components st' ! j)) = index_size (path (ep_components st ! j))
        \<and> tag_size (path (ep_components st' ! j)) = tag_size (path (ep_components st ! j))"
    by (simp_all add: list_all2_conv_all_nth)
  from assms(2) len nth have "lookups_defined st'"
    by (simp add: lookups_defined_def list_all_length lookup_defined_def)
  moreover from assms(3) have "0 < length (ep_components st)"
    by (simp add: base_always_hits_iff)
  with assms(3) len nth [of 0] have "base_always_hits st'"
    by (auto simp: base_always_hits_iff)
  ultimately show ?thesis ..
qed

text \<open>Both conditions hold after the construction of a well-configured predictor, and
  every operation that returns keeps them: the tables keep their lengths and the trackers
  their widths, and nothing is ever allocated in component 0.\<close>

lemma invariants_new:
  assumes "well_configured configs"
  shows "\<exists>st. EqualityPredictor_new configs = Inr st \<and> lookups_defined st \<and> base_always_hits st"
proof -
  from assms obtain base rest where cs: "configs = base # rest" and t: "cfg_tag_bits base = 0"
    and all: "\<forall>c\<in>set configs. unat (cfg_index_bits c) + unat (cfg_tag_bits c) \<le> 31
                    \<and> 2 ^ unat (cfg_index_bits c) \<le> unat (cfg_size c)"
    by (auto simp: well_configured_def list_all_iff split: list.splits)
  from all have "\<forall>c\<in>set configs. \<not> cfg_index_bits c + cfg_tag_bits c > 31"
    using width_no_wrap by blast
  then have new: "EqualityPredictor_new configs
      = Inr \<lparr>ep_components = map component_of_config configs, branch_queue = []\<rparr>"
    using emplace_components_ok by (simp add: EqualityPredictor_new_def)
  from all have "lookups_defined \<lparr>ep_components = map component_of_config configs, branch_queue = []\<rparr>"
    by (auto simp: lookups_defined_def list_all_iff lookup_defined_def component_of_config_def)
  moreover from cs t
  have "base_always_hits \<lparr>ep_components = map component_of_config configs, branch_queue = []\<rparr>"
    by (simp add: base_always_hits_def component_of_config_def list_all_iff
        EqualityPredictorEntry_new_def)
  ultimately show ?thesis using new by simp
qed

lemma invariants_operation:
  assumes "apply_operation operation st = Inr st'" "lookups_defined st" "base_always_hits st"
  shows "lookups_defined st' \<and> base_always_hits st'"
proof (cases operation)
  case (UpdateOnBranch seqNum outcome)
  with assms(1) obtain cs where "addBranch_all outcome (ep_components st) = Inr cs"
    "ep_components st' = cs"
    by (auto simp: updateOnBranch_def split: if_splits sum.splits)
  with addBranch_all_tables [of outcome "ep_components st" cs] assms(2,3) show ?thesis
    by (intro invariants_same_tables [of st]) simp_all
next
  case (OnBranchCommit seqNum)
  with assms(1) have "ep_components st' = ep_components st"
    by (auto simp: onBranchCommit_def split: list.splits if_splits)
  with assms(2,3) show ?thesis
    by (simp add: lookups_defined_def base_always_hits_def)
next
  case (OnValueCommit pc wasEqual rnd)
  with assms(1) have c: "onValueCommit pc wasEqual rnd st = Inr st'" by simp
  from onValueCommit_total [OF assms(2,3), of pc wasEqual rnd] c
  have "lookups_defined st'" by auto
  with onValueCommit_base [OF c assms(3)] show ?thesis by simp
next
  case (Squash seqNum)
  with assms(1) obtain cs num where "revertBranches_all num (ep_components st) = Inr cs"
    "ep_components st' = cs"
    by (auto simp: squash_def split: prod.splits sum.splits)
  with revertBranches_all_tables [of num "ep_components st" cs] assms(2,3) show ?thesis
    by (intro invariants_same_tables [of st]) simp_all
qed

lemma invariants_run:
  "run operations st h = Inr (st', h') \<Longrightarrow> lookups_defined st \<Longrightarrow> base_always_hits st
   \<Longrightarrow> lookups_defined st' \<and> base_always_hits st'"
proof (induction operations arbitrary: st h)
  case Nil
  then show ?case by simp
next
  case (Cons operation operations)
  from Cons.prems(1) obtain st1 where
    a: "apply_operation operation st = Inr st1"
    and r: "run operations st1 (outcomes_after operation st h) = Inr (st', h')"
    by (auto split: sum.splits)
  from invariants_operation [OF a Cons.prems(2,3)] Cons.IH [OF r] show ?case by simp
qed

text \<open>
  Claim C2. In a state where every lookup is defined and the base component always hits,
  \<^verbatim>\<open>getPredictingEntries\<close> finds a primary and \<^verbatim>\<open>onValueCommit(pc, outcome)\<close> returns.
  Whenever the call returns and the primary is in component \<open>i\<close>, the primary entry has
  received \<^verbatim>\<open>update(outcome)\<close> if \<open>i = 0\<close>, or the primary's confidence was below high,
  or the alternate is missing, or the alternate's confidence was below high, or the
  alternate's direction differed from the outcome; and it has received \<^verbatim>\<open>decay()\<close>
  otherwise (primary high, alternate present and high, alternate's direction equal to the
  outcome).
\<close>

theorem onValueCommit_primary_rule:
  "(lookups_defined st \<and> base_always_hits st \<longrightarrow>
      (\<exists>pd r st'. getPredictingEntries pc st = Inr pd \<and> primary pd = Some r
         \<and> onValueCommit pc wasEqual rnd st = Inr st'))
   \<and> (\<forall>pd r st'. getPredictingEntries pc st = Inr pd \<and> primary pd = Some r
         \<and> onValueCommit pc wasEqual rnd st = Inr st' \<longrightarrow>
         entry_at st' r =
           (if primary_index pd = 0 \<or> getConfidence (entry_at st r) \<noteq> high
               \<or> alt pd = None
               \<or> (case alt pd of
                     None \<Rightarrow> False
                   | Some a \<Rightarrow> getConfidence (entry_at st a) \<noteq> high
                                \<or> getDirection (entry_at st a) \<noteq> wasEqual)
            then update wasEqual (entry_at st r)
            else decay (entry_at st r)))"
proof (intro conjI impI allI)
  assume "lookups_defined st \<and> base_always_hits st"
  then have "lookups_defined st" "base_always_hits st" by simp_all
  from onValueCommit_total [OF this, of pc wasEqual rnd]
  show "\<exists>pd r st'. getPredictingEntries pc st = Inr pd \<and> primary pd = Some r
         \<and> onValueCommit pc wasEqual rnd st = Inr st'" by blast
next
  fix pd r st'
  assume a: "getPredictingEntries pc st = Inr pd \<and> primary pd = Some r
         \<and> onValueCommit pc wasEqual rnd st = Inr st'"
  then have gpe: "getPredictingEntries pc st = Inr pd" and prim: "primary pd = Some r"
    and commit: "onValueCommit pc wasEqual rnd st = Inr st'" by simp_all
  note rule = onValueCommit_at_primary [OF gpe prim, of wasEqual rnd]
  from rule commit have alt: "alt pd = None \<longrightarrow> primary_index pd = 0"
    by auto
  from rule commit have "entry_at st' r =
              (if primary_index pd = 0 \<or> getConfidence (entry_at st r) \<noteq> high
                  \<or> (case alt pd of
                        None \<Rightarrow> False
                      | Some a \<Rightarrow> getConfidence (entry_at st a) \<noteq> high
                                   \<or> getDirection (entry_at st a) \<noteq> wasEqual)
               then update wasEqual (entry_at st r)
               else decay (entry_at st r))"
    by blast
  with alt show "entry_at st' r =
           (if primary_index pd = 0 \<or> getConfidence (entry_at st r) \<noteq> high
               \<or> alt pd = None
               \<or> (case alt pd of
                     None \<Rightarrow> False
                   | Some a \<Rightarrow> getConfidence (entry_at st a) \<noteq> high
                                \<or> getDirection (entry_at st a) \<noteq> wasEqual)
            then update wasEqual (entry_at st r)
            else decay (entry_at st r))"
    by (cases "alt pd") simp_all
qed

lemma base_always_hits_two_hits: "base_always_hits two_hits"
  by (simp add: base_always_hits_def two_hits_def)

theorem onValueCommit_primary_rule_witness:
  "lookups_defined two_hits \<and> base_always_hits two_hits
   \<and> getPredictingEntries 2 two_hits
     = Inr \<lparr>primary = Some (1, 0), primary_index = 1, alt = Some (0, 0), alt_index = 0\<rparr>
   \<and> onValueCommit 2 True (\<lambda>k. 0) two_hits = Inr two_hits_decayed
   \<and> entry_at two_hits_decayed (1, 0) = decay (entry_at two_hits (1, 0))"
proof -
  note th = onValueCommit_primary_rule [of two_hits 2 True "\<lambda>k. 0", THEN conjunct2, rule_format,
      of "\<lparr>primary = Some (1, 0), primary_index = 1, alt = Some (0, 0), alt_index = 0\<rparr>"
         "(1, 0)" two_hits_decayed]
  have "entry_at two_hits_decayed (1, 0) =
      (if getConfidence (entry_at two_hits (1, 0)) \<noteq> high
          \<or> getConfidence (entry_at two_hits (0, 0)) \<noteq> high
          \<or> getDirection (entry_at two_hits (0, 0)) \<noteq> True
       then update True (entry_at two_hits (1, 0))
       else decay (entry_at two_hits (1, 0)))"
    using th getPredictingEntries_two_hits onValueCommit_two_hits by simp
  moreover have "getConfidence (entry_at two_hits (1, 0)) = high"
    "getConfidence (entry_at two_hits (0, 0)) = high"
    "getDirection (entry_at two_hits (0, 0))"
    by (simp_all add: two_hits_def entry_at_def getConfidence_def getDirection_def)
  moreover have "\<exists>pd r st'. getPredictingEntries 2 two_hits = Inr pd \<and> primary pd = Some r
         \<and> onValueCommit 2 True (\<lambda>k. 0) two_hits = Inr st'"
    using onValueCommit_primary_rule [of two_hits 2 True "\<lambda>k. 0", THEN conjunct1]
      lookups_defined_two_hits base_always_hits_two_hits by simp
  ultimately show ?thesis
    using getPredictingEntries_two_hits onValueCommit_two_hits
      lookups_defined_two_hits base_always_hits_two_hits by simp
qed

lemma new_tagged_pair:
  "EqualityPredictor_new
     [\<lparr>cfg_size = 2, cfg_ghist_bits = 0, cfg_index_bits = 1, cfg_tag_bits = 1\<rparr>,
      \<lparr>cfg_size = 2, cfg_ghist_bits = 0, cfg_index_bits = 1, cfg_tag_bits = 1\<rparr>]
   = Inr (tagged_pair \<lparr>tag = 0, taken_counter = 0, not_taken_counter = 0\<rparr>)"
  by (simp add: EqualityPredictor_new_def EqualityPredictorComponent_new_def PathTracker_new_def
      EqualityPredictorEntry_new_def tagged_pair_def replicate_2)

lemma gpe_fresh:
  "getPredictingEntries 2 (tagged_pair \<lparr>tag = 0, taken_counter = 0, not_taken_counter = 0\<rparr>)
     = Inr \<lparr>primary = None, primary_index = 0, alt = None, alt_index = 0\<rparr>"
  by (simp add: getPredictingEntries_def tagged_pair_def lookup_defs upt_0_2)

lemma commit_fresh:
  "onValueCommit 2 True (\<lambda>k. 0)
     (tagged_pair \<lparr>tag = 0, taken_counter = 0, not_taken_counter = 0\<rparr>)
   = Inr (tagged_pair \<lparr>tag = 1, taken_counter = 1, not_taken_counter = 0\<rparr>)"
  by (simp add: onValueCommit_def gpe_fresh)
     (simp add: tagged_pair_def lookup_defs upt_0_2 getConfidence_def allocate_def update_def
        EqualityPredictorEntry_new_def)

lemma gpe_missing:
  "getPredictingEntries 2 (tagged_pair \<lparr>tag = 1, taken_counter = 1, not_taken_counter = 0\<rparr>)
     = Inr \<lparr>primary = Some (1, 0), primary_index = 1, alt = None, alt_index = 0\<rparr>"
  by (simp add: getPredictingEntries_def tagged_pair_def lookup_defs upt_0_2)

text \<open>Without a base component that always hits the call need not return. With two
  tagged components the first commit at \<open>pc = 2\<close> allocates in the second component only,
  so the next commit finds a primary in component 1 and no alternate, and fails the
  assertion \<^verbatim>\<open>i==0 || pd.alt.has_value()\<close>.\<close>

lemma onValueCommit_tagged_base_asserts:
  "EqualityPredictor_new
     [\<lparr>cfg_size = 2, cfg_ghist_bits = 0, cfg_index_bits = 1, cfg_tag_bits = 1\<rparr>,
      \<lparr>cfg_size = 2, cfg_ghist_bits = 0, cfg_index_bits = 1, cfg_tag_bits = 1\<rparr>]
     = Inr (tagged_pair \<lparr>tag = 0, taken_counter = 0, not_taken_counter = 0\<rparr>)
   \<and> onValueCommit 2 True (\<lambda>k. 0)
       (tagged_pair \<lparr>tag = 0, taken_counter = 0, not_taken_counter = 0\<rparr>)
     = Inr (tagged_pair \<lparr>tag = 1, taken_counter = 1, not_taken_counter = 0\<rparr>)
   \<and> getPredictingEntries 2 (tagged_pair \<lparr>tag = 1, taken_counter = 1, not_taken_counter = 0\<rparr>)
     = Inr \<lparr>primary = Some (1, 0), primary_index = 1, alt = None, alt_index = 0\<rparr>
   \<and> getConfidence (entry_at (tagged_pair \<lparr>tag = 1, taken_counter = 1, not_taken_counter = 0\<rparr>)
        (1, 0)) = medium
   \<and> onValueCommit 2 True (\<lambda>k. 0)
       (tagged_pair \<lparr>tag = 1, taken_counter = 1, not_taken_counter = 0\<rparr>)
     = Inl AssertionFailure"
proof -
  have conf: "getConfidence (entry_at
      (tagged_pair \<lparr>tag = 1, taken_counter = 1, not_taken_counter = 0\<rparr>) (1, 0)) = medium"
    by (simp add: tagged_pair_def entry_at_def getConfidence_def)
  have fail: "onValueCommit 2 True (\<lambda>k. 0)
       (tagged_pair \<lparr>tag = 1, taken_counter = 1, not_taken_counter = 0\<rparr>)
     = Inl AssertionFailure"
    by (simp add: onValueCommit_def gpe_missing)
       (simp add: tagged_pair_def lookup_defs upt_0_2)
  from new_tagged_pair commit_fresh gpe_missing conf fail show ?thesis by simp
qed

section \<open>Squash and the history of the surviving branches\<close>

lemma agree_refl [simp]: "agree d p p"
  by (simp add: agree_def)

lemma agree_mono: "agree d p q \<Longrightarrow> d \<le> d' \<Longrightarrow> agree d' p q"
  by (simp add: agree_def)

lemma addBranch_no_history:
  "ghist_bits p = 0 \<Longrightarrow> addBranch outcome p = Inr p"
  by (simp add: addBranch_def)

lemma addBranches_no_history:
  "ghist_bits p = 0 \<Longrightarrow> addBranches outcomes p = Inr p"
  by (induction outcomes) (simp_all add: addBranch_no_history)

lemma agree_addBranch:
  assumes ag: "agree d p q" and room: "ghist_bits p \<noteq> 0 \<longrightarrow> unat (ghist_bits p) + d \<le> 200"
    and add: "addBranch outcome p = Inr p'"
  shows "\<exists>q'. addBranch outcome q = Inr q' \<and> agree (d - 1) p' q'"
proof (cases "ghist_bits p = 0")
  case True
  with ag have "ghist_bits q = 0" by (simp add: agree_def same_config_def)
  with True add ag show ?thesis
    by (auto simp: addBranch_no_history agree_def)
next
  case False
  from ag have cfg: "same_config p q" by (simp add: agree_def)
  from add False have d: "fold_defined p"
    by (auto simp: addBranch_cases split: if_splits)
  note w = config_words [OF d False]
  have gq: "ghist_bits q \<noteq> 0" "fold_defined q" "width q = width p"
    "fold_position q = fold_position p" "ghist_bits q = ghist_bits p"
    using cfg False d same_config_simps [OF cfg] by simp_all
  from room False w(7) have "unat (ghist_bits p) - 1 + d < 200" by simp
  with ag have old: "bit (outcome_buffer p) (unat (ghist_bits p) - 1)
      = bit (outcome_buffer q) (unat (ghist_bits p) - 1)"
    by (simp add: agree_def)
  have fp: "folded_path p = folded_path q" using ag by (simp add: agree_def)
  have bits: "bit (bitset_assign 0 outcome (push_bit 1 (outcome_buffer p))) n
      = bit (bitset_assign 0 outcome (push_bit 1 (outcome_buffer q))) n"
    if "n + (d - 1) < 200" for n
  proof (cases n)
    case 0
    then show ?thesis by (simp add: bit_buffer_pushed del: push_bit_Suc One_nat_def)
  next
    case (Suc m)
    with that have "m + d < 200" by simp
    with ag have "bit (outcome_buffer p) m = bit (outcome_buffer q) m"
      by (simp add: agree_def)
    with Suc show ?thesis by (simp add: bit_buffer_pushed del: push_bit_Suc One_nat_def)
  qed
  from add False d have p': "p' = p\<lparr>folded_path := fold_in (width p) (fold_position p) (folded_path p)
                              (bit (outcome_buffer p) (unat (ghist_bits p) - 1)) outcome,
            outcome_buffer := bitset_assign 0 outcome (push_bit 1 (outcome_buffer p))\<rparr>"
    by (simp add: addBranch_cases)
  show ?thesis
    unfolding addBranch_cases [of outcome q] p'
    using gq cfg bits old fp
    by (simp add: agree_def del: push_bit_Suc One_nat_def)
qed

lemma agree_revertBranches_step:
  assumes ag: "agree d p q'" and ok: "tracker_ok q" and g: "ghist_bits q \<noteq> 0"
    and add: "addBranch outcome q = Inr q'"
    and room: "unat (ghist_bits q) + d + 1 \<le> 200"
  shows "\<exists>p'. revertBranches_step p = Inr p' \<and> agree (d + 1) p' q"
proof -
  from add g have dq: "fold_defined q"
    by (auto simp: addBranch_cases split: if_splits)
  note w = config_words [OF dq g]
  from add g dq have q': "q' = q\<lparr>folded_path := fold_in (width q) (fold_position q) (folded_path q)
                              (bit (outcome_buffer q) (unat (ghist_bits q) - 1)) outcome,
            outcome_buffer := bitset_assign 0 outcome (push_bit 1 (outcome_buffer q))\<rparr>"
    by (simp add: addBranch_cases)
  from ag have cfg: "same_config p q" by (simp add: agree_def q')
  have gp: "ghist_bits p \<noteq> 0" "fold_defined p" "width p = width q"
    "fold_position p = fold_position q" "ghist_bits p = ghist_bits q"
    using cfg g dq same_config_simps [OF cfg] by simp_all
  from ok dq have small: "folded_path q < 2 ^ width q" by (simp add: tracker_ok_def)
  have fp: "folded_path p = fold_in (width q) (fold_position q) (folded_path q)
                              (bit (outcome_buffer q) (unat (ghist_bits q) - 1)) outcome"
    using ag by (simp add: agree_def q')
  have bitp: "bit (outcome_buffer p) n
      = (if n = 0 then outcome else bit (outcome_buffer q) (n - 1))" if "n + d < 200" for n
  proof -
    from ag that have "bit (outcome_buffer p) n = bit (outcome_buffer q') n"
      by (simp add: agree_def)
    with that show ?thesis
      by (auto simp add: q' bit_buffer_pushed simp del: push_bit_Suc One_nat_def)
  qed
  have b0: "bit (outcome_buffer p) 0 = outcome"
    using bitp [of 0] room by simp
  have bg: "bit (drop_bit 1 (outcome_buffer p)) (unat (ghist_bits q) - 1)
      = bit (outcome_buffer q) (unat (ghist_bits q) - 1)"
    using bitp [of "unat (ghist_bits q)"] room w(7)
    by (simp add: bit_shr1 del: drop_bit_Suc One_nat_def)
  have bits: "bit (drop_bit 1 (outcome_buffer p)) n = bit (outcome_buffer q) n"
    if "n + (d + 1) < 200" for n
    using bitp [of "Suc n"] that by (simp add: bit_shr1 del: drop_bit_Suc One_nat_def)
  have undo: "fold_out (width q) (fold_position q) (folded_path p) outcome
      (bit (outcome_buffer q) (unat (ghist_bits q) - 1)) = folded_path q"
    unfolding fp using w(4,5) small by (rule fold_out_in)
  show ?thesis
    unfolding revertBranches_step_defined [OF gp(2,1)]
    using cfg bits g
    by (simp add: agree_def gp b0 bg undo del: drop_bit_Suc One_nat_def)
qed


lemma agree_revertBranches_loop:
  assumes "tracker_ok fresh" "ghist_bits fresh \<noteq> 0"
    and "addBranches (rev h) fresh = Inr q" "agree d p q"
    and "k \<le> length h" "unat (ghist_bits fresh) + d + k \<le> 200"
  shows "\<exists>p' q'. revertBranches_loop k p = Inr p'
           \<and> addBranches (rev (drop k h)) fresh = Inr q' \<and> agree (d + k) p' q'"
  using assms(3-6)
proof (induction k arbitrary: p q h d)
  case 0
  then show ?case by simp
next
  case (Suc k)
  from Suc.prems(3) obtain outcome h' where h: "h = outcome # h'"
    by (cases h) simp_all
  from Suc.prems(1) obtain q0 where
    q0: "addBranches (rev h') fresh = Inr q0" and add: "addBranch outcome q0 = Inr q"
    by (auto simp: h addBranches_append split: sum.splits)
  from addBranches_ok [OF assms(1) q0] have ok0: "tracker_ok q0" and cfg0: "same_config q0 fresh"
    by simp_all
  from cfg0 assms(2) have g0: "ghist_bits q0 \<noteq> 0" and gg: "ghist_bits q0 = ghist_bits fresh"
    by (simp_all add: same_config_def)
  from Suc.prems(4) have "unat (ghist_bits q0) + d + 1 \<le> 200" by (simp add: gg)
  with Suc.prems(2) ok0 g0 add obtain p1 where
    step: "revertBranches_step p = Inr p1" and ag1: "agree (d + 1) p1 q0"
    using agree_revertBranches_step by blast
  from Suc.prems(3,4) have "k \<le> length h'" "unat (ghist_bits fresh) + (d + 1) + k \<le> 200"
    by (simp_all add: h)
  from Suc.IH [OF q0 ag1 this] step show ?case
    by (simp add: h)
qed

lemma squash_loop_spec:
  "squash_loop seqNum q n = (q', n') \<Longrightarrow>
   \<exists>popped. q = q' @ popped \<and> n' = n + of_nat (length popped)
     \<and> (\<forall>x\<in>set popped. seqNum \<le> x) \<and> (q' = [] \<or> \<not> seqNum \<le> last q')"
proof (induction seqNum q n rule: squash_loop.induct)
  case (1 seqNum q n)
  show ?case
  proof (cases "q \<noteq> [] \<and> last q \<ge> seqNum")
    case True
    with "1.prems" have "squash_loop seqNum (butlast q) (n + 1) = (q', n')"
      by (simp add: squash_loop.simps [of seqNum q])
    from "1.IH" [OF True this] obtain popped where
      p: "butlast q = q' @ popped" "n' = n + 1 + of_nat (length popped)"
         "\<forall>x\<in>set popped. seqNum \<le> x" "q' = [] \<or> \<not> seqNum \<le> last q'"
      by blast
    from True p(1) have "q = q' @ (popped @ [last q])"
      by (metis append_assoc append_butlast_last_id)
    moreover have "n' = n + of_nat (length (popped @ [last q]))"
      using p(2) by simp
    moreover have "\<forall>x\<in>set (popped @ [last q]). seqNum \<le> x"
      using p(3) True by simp
    ultimately show ?thesis using p(4) by blast
  next
    case False
    with "1.prems" have "q' = q" "n' = n"
      by (auto simp: squash_loop.simps [of seqNum q])
    with False show ?thesis by auto
  qed
qed

lemma sorted_le_last:
  fixes xs :: "InstSeqNum list"
  shows "sorted xs \<Longrightarrow> x \<in> set xs \<Longrightarrow> x \<le> last xs"
  by (induction xs) (auto split: if_splits)

lemma addBranch_all_paths:
  "addBranch_all outcome cs = Inr cs' \<Longrightarrow>
   length cs' = length cs
   \<and> (\<forall>i<length cs. addBranch outcome (path (cs ! i)) = Inr (path (cs' ! i)))"
proof (induction cs arbitrary: cs')
  case Nil
  then show ?case by simp
next
  case (Cons c cs)
  from Cons.prems obtain c' rest where
    c: "component_addBranch outcome c = Inr c'" and r: "addBranch_all outcome cs = Inr rest"
    and cs': "cs' = c' # rest"
    by (auto split: sum.splits)
  from c have "addBranch outcome (path c) = Inr (path c')"
    by (auto simp: component_addBranch_def split: sum.splits)
  with Cons.IH [OF r] show ?case
    by (auto simp: cs' nth_Cons split: nat.splits)
qed

lemma revertBranches_all_paths:
  assumes "\<forall>i<length cs. \<exists>p. revertBranches num (path (cs ! i)) = Inr p"
  shows "\<exists>cs'. revertBranches_all num cs = Inr cs' \<and> length cs' = length cs
     \<and> (\<forall>i<length cs. revertBranches num (path (cs ! i)) = Inr (path (cs' ! i)))"
  using assms
proof (induction cs)
  case Nil
  then show ?case by simp
next
  case (Cons c cs)
  from Cons.prems obtain p where p: "revertBranches num (path c) = Inr p"
    by fastforce
  from Cons.prems have "\<forall>i<length cs. \<exists>p. revertBranches num (path (cs ! i)) = Inr p"
    by fastforce
  from Cons.IH [OF this] obtain rest where
    r: "revertBranches_all num cs = Inr rest" "length rest = length cs"
       "\<forall>i<length cs. revertBranches num (path (cs ! i)) = Inr (path (rest ! i))"
    by blast
  from p r show ?case
    by (auto simp: component_revertBranches_def nth_Cons split: nat.splits)
qed


lemma replayed_config:
  assumes "replayed c outcomes = Inr q"
  obtains fresh where "PathTracker_new (cfg_ghist_bits c) (cfg_index_bits c) (cfg_tag_bits c) = Inr fresh"
    "addBranches outcomes fresh = Inr q" "tracker_ok fresh" "ghist_bits fresh = cfg_ghist_bits c"
    "tracker_ok q" "ghist_bits q = cfg_ghist_bits c"
proof -
  from assms obtain fresh where
    f: "PathTracker_new (cfg_ghist_bits c) (cfg_index_bits c) (cfg_tag_bits c) = Inr fresh"
    and a: "addBranches outcomes fresh = Inr q"
    by (auto simp: replayed_def split: sum.splits)
  note n = tracker_ok_new [OF f]
  from n have ok: "tracker_ok fresh" by simp
  from addBranches_ok [OF ok a] n have "tracker_ok q" "ghist_bits q = cfg_ghist_bits c"
    by (simp_all add: same_config_def)
  with f a n that show ?thesis by simp
qed

lemma case_sum_False_iff:
  "(case x of Inl e \<Rightarrow> False | Inr q \<Rightarrow> P q) \<longleftrightarrow> (\<exists>q. x = Inr q \<and> P q)"
  by (cases x) auto

lemma tracks_iff:
  "tracks configs d st h \<longleftrightarrow>
     length (ep_components st) = length configs
     \<and> length (branch_queue st) + d \<le> 64
     \<and> length (branch_queue st) \<le> length h
     \<and> (\<forall>i<length configs. \<exists>q. replayed (configs ! i) (rev h) = Inr q
            \<and> agree d (path (ep_components st ! i)) q)"
  by (simp add: tracks_def case_sum_False_iff MAX_BRANCH_SPEC_DISTANCE_def)

lemma tracks_agree:
  assumes "tracks configs d st h" "i < length configs"
  obtains q where "replayed (configs ! i) (rev h) = Inr q"
    "agree d (path (ep_components st ! i)) q"
  using assms unfolding tracks_iff by blast

lemma replayed_snoc:
  "replayed c (outcomes @ [outcome]) =
     (case replayed c outcomes of Inl e \<Rightarrow> Inl e | Inr q \<Rightarrow> addBranch outcome q)"
  by (auto simp: replayed_def addBranches_append split: sum.splits)

lemma tracks_updateOnBranch:
  assumes tr: "tracks configs d st h" and fits: "history_fits configs"
    and up: "updateOnBranch seqNum outcome st = Inr st'"
  shows "tracks configs (d - 1) st' (outcome # h)"
proof -
  from up obtain cs where
    len: "length (branch_queue st) < MAX_BRANCH_SPEC_DISTANCE"
    and all: "addBranch_all outcome (ep_components st) = Inr cs"
    and st': "st' = st\<lparr>ep_components := cs, branch_queue := branch_queue st @ [seqNum]\<rparr>"
    by (auto simp: updateOnBranch_def split: if_splits sum.splits)
  note paths = addBranch_all_paths [OF all]
  from tr have n: "length (ep_components st) = length configs"
    and dq: "length (branch_queue st) + d \<le> 64"
    and qh: "length (branch_queue st) \<le> length h"
    by (simp_all add: tracks_iff)
  have comp: "\<exists>q. replayed (configs ! i) (rev (outcome # h)) = Inr q
      \<and> agree (d - 1) (path (ep_components st' ! i)) q"
    if i: "i < length configs" for i
  proof -
    from tr i obtain q where q: "replayed (configs ! i) (rev h) = Inr q"
      and ag: "agree d (path (ep_components st ! i)) q"
      by (rule tracks_agree)
    from q obtain fresh where gq: "ghist_bits q = cfg_ghist_bits (configs ! i)"
      by (rule replayed_config)
    from ag have gp: "ghist_bits (path (ep_components st ! i)) = cfg_ghist_bits (configs ! i)"
      by (simp add: agree_def same_config_def gq)
    from fits i have "cfg_ghist_bits (configs ! i) = 0
        \<or> unat (cfg_ghist_bits (configs ! i)) + MAX_BRANCH_SPEC_DISTANCE \<le> MAX_HIST"
      by (simp add: history_fits_def)
    with dq have room: "ghist_bits (path (ep_components st ! i)) \<noteq> 0 \<longrightarrow>
        unat (ghist_bits (path (ep_components st ! i))) + d \<le> 200"
      by (auto simp: gp MAX_HIST_def MAX_BRANCH_SPEC_DISTANCE_def)
    from paths i n have "addBranch outcome (path (ep_components st ! i)) = Inr (path (cs ! i))"
      by simp
    from agree_addBranch [OF ag room this] obtain q' where
      "addBranch outcome q = Inr q'" "agree (d - 1) (path (cs ! i)) q'"
      by blast
    with q show ?thesis
      by (simp add: replayed_snoc st')
  qed
  from len dq qh have "length (branch_queue st') + (d - 1) \<le> 64"
    "length (branch_queue st') \<le> length (outcome # h)"
    by (simp_all add: st' MAX_BRANCH_SPEC_DISTANCE_def)
  moreover from n paths have "length (ep_components st') = length configs"
    by (simp add: st')
  ultimately show ?thesis
    unfolding tracks_iff using comp by blast
qed

lemma tracks_onBranchCommit:
  assumes "tracks configs d st h" "onBranchCommit seqNum st = Inr st'"
  shows "tracks configs d st' h"
proof -
  from assms(2) obtain front where "branch_queue st = front # branch_queue st'"
    "ep_components st' = ep_components st"
    by (auto simp: onBranchCommit_def split: list.splits if_splits)
  with assms(1) show ?thesis
    by (simp add: tracks_iff)
qed


lemma allocate_loop_paths:
  assumes "allocate_loop pc w xs st = Inr (st1, r)"
  shows "length (ep_components st1) = length (ep_components st)
       \<and> branch_queue st1 = branch_queue st
       \<and> (\<forall>j. path (ep_components st1 ! j) = path (ep_components st ! j))"
  using assms
proof (induction xs)
  case Nil
  then show ?case by simp
next
  case (Cons i rest)
  show ?case
  proof (cases "allocate_loop pc w rest st = Inr (st1, r)")
    case True
    then show ?thesis by (rule Cons.IH)
  next
    case False
    with Cons.prems obtain c where c: "allocate pc w (ep_components st ! i) = Inr c"
      and st1: "st1 = st\<lparr>ep_components := (ep_components st)[i := c]\<rparr>"
      by (auto split: sum.splits if_splits)
    from c have pc: "path c = path (ep_components st ! i)"
      by (auto simp: allocate_def split: sum.splits if_splits)
    have "path ((ep_components st)[i := c] ! j) = path (ep_components st ! j)" for j
    proof (cases "i < length (ep_components st)")
      case True
      then show ?thesis using pc by (cases "j = i") simp_all
    next
      case False
      then show ?thesis by (simp add: list_update_beyond)
    qed
    then show ?thesis by (simp add: st1)
  qed
qed

lemma decay_loop_paths:
  assumes "decay_loop pc rnd k xs st = Inr st1"
  shows "length (ep_components st1) = length (ep_components st)
       \<and> branch_queue st1 = branch_queue st
       \<and> (\<forall>j. path (ep_components st1 ! j) = path (ep_components st ! j))"
  using assms
proof (induction xs arbitrary: st k)
  case Nil
  then show ?case by simp
next
  case (Cons i rest)
  from Cons.prems obtain st0 where
    "decay_loop pc rnd (Suc k) rest st0 = Inr st1"
    "length (ep_components st0) = length (ep_components st)"
    "branch_queue st0 = branch_queue st"
    "\<forall>j. path (ep_components st0 ! j) = path (ep_components st ! j)"
    by (auto simp: entry_set_frame entry_set_path split: sum.splits if_splits)
  with Cons.IH [of "Suc k" st0] show ?case by auto
qed

lemma onValueCommit_paths:
  assumes "onValueCommit pc w rnd st = Inr st'"
  shows "length (ep_components st') = length (ep_components st)
       \<and> branch_queue st' = branch_queue st
       \<and> (\<forall>j. path (ep_components st' ! j) = path (ep_components st ! j))"
proof -
  from assms obtain pd where pd: "getPredictingEntries pc st = Inr pd"
    by (auto simp: onValueCommit_def split: sum.splits)
  with assms obtain stL lng where
    loop: "onValueCommit_loop pc w pd [0..<length (ep_components st)] st 0 = Inr (stL, lng)"
    by (auto simp: onValueCommit_def Let_def split: sum.splits)
  have rest: "st' = stL \<or> (\<exists>stA r. allocate_loop pc w
                 [lng + 1..<length (ep_components stL)] stL = Inr (stA, r)
               \<and> decay_loop pc rnd 0 [lng + 1..<r] stA = Inr st')"
  proof (cases "(case primary pd of None \<Rightarrow> False | Some r \<Rightarrow> getDirection (entry_at st r))
                  \<noteq> w")
    case False
    with assms pd loop show ?thesis
      by (simp add: onValueCommit_def Let_def)
  next
    case True
    with assms pd loop show ?thesis
      by (simp add: onValueCommit_def Let_def split: sum.splits prod.splits)
  qed
  note fL = onValueCommit_loop_frame [OF loop]
  from rest show ?thesis
  proof
    assume "st' = stL"
    with fL show ?thesis by simp
  next
    assume "\<exists>stA r. allocate_loop pc w [lng + 1..<length (ep_components stL)] stL = Inr (stA, r)
               \<and> decay_loop pc rnd 0 [lng + 1..<r] stA = Inr st'"
    then obtain stA r where
      al: "allocate_loop pc w [lng + 1..<length (ep_components stL)] stL = Inr (stA, r)"
      and de: "decay_loop pc rnd 0 [lng + 1..<r] stA = Inr st'"
      by blast
    from fL allocate_loop_paths [OF al] decay_loop_paths [OF de] show ?thesis by simp
  qed
qed

lemma tracks_onValueCommit:
  assumes "tracks configs d st h" "onValueCommit pc w rnd st = Inr st'"
  shows "tracks configs d st' h"
  using assms(1) onValueCommit_paths [OF assms(2)]
  by (simp add: tracks_iff)

text \<open>The result of the loop of squash: what is left of the queue, and how many were popped.\<close>

lemma squash_loop_queue:
  assumes "squash_loop seqNum q 0 = (q', num)" "length q \<le> 64"
  shows "unat num = length q - length q' \<and> length q' \<le> length q
       \<and> (sorted q \<longrightarrow> (\<forall>x\<in>set q'. x < seqNum))"
proof -
  from squash_loop_spec [OF assms(1)] obtain popped where
    p: "q = q' @ popped" "num = of_nat (length popped)" "q' = [] \<or> \<not> seqNum \<le> last q'"
    by auto
  from p(1) assms(2) have "length popped \<le> 64" by simp
  then have "unat (of_nat (length popped) :: size_t) = length popped"
    by (simp add: unat_of_nat)
  with p(1,2) have k: "unat num = length q - length q'" by simp
  have "x < seqNum" if "sorted q" "x \<in> set q'" for x
  proof -
    from that(1) p(1) have "sorted q'" by (simp add: sorted_append)
    then have "x \<le> last q'" using that(2) by (rule sorted_le_last)
    moreover from that(2) p(3) have "last q' < seqNum" by auto
    ultimately show ?thesis by simp
  qed
  with k p(1) show ?thesis by simp
qed

lemma tracks_squash:
  assumes tr: "tracks configs d st h" and fits: "history_fits configs"
  shows "\<exists>st'. squash seqNum st = Inr st'
     \<and> tracks configs (d + (length (branch_queue st) - length (branch_queue st'))) st'
         (outcomes_after (Squash seqNum) st h)
     \<and> (sorted (branch_queue st) \<longrightarrow> (\<forall>x\<in>set (branch_queue st'). x < seqNum))"
proof -
  obtain q' num where sl: "squash_loop seqNum (branch_queue st) 0 = (q', num)"
    by (cases "squash_loop seqNum (branch_queue st) 0")
  from tr have n: "length (ep_components st) = length configs"
    and dq: "length (branch_queue st) + d \<le> 64"
    and qh: "length (branch_queue st) \<le> length h"
    by (simp_all add: tracks_iff)
  define k where "k = length (branch_queue st) - length q'"
  from dq have "length (branch_queue st) \<le> 64" by simp
  from squash_loop_queue [OF sl this] have num: "unat num = k"
    and shorter: "length q' \<le> length (branch_queue st)"
    and below: "sorted (branch_queue st) \<longrightarrow> (\<forall>x\<in>set q'. x < seqNum)"
    by (simp_all add: k_def)
  have h': "outcomes_after (Squash seqNum) st h = drop k h"
    by (simp add: sl num)
  have comp: "\<exists>p q. revertBranches num (path (ep_components st ! i)) = Inr p
      \<and> replayed (configs ! i) (rev (drop k h)) = Inr q \<and> agree (d + k) p q"
    if i: "i < length configs" for i
  proof -
    from tr i obtain q where q: "replayed (configs ! i) (rev h) = Inr q"
      and ag: "agree d (path (ep_components st ! i)) q"
      by (rule tracks_agree)
    from q obtain fresh where
      f: "PathTracker_new (cfg_ghist_bits (configs ! i)) (cfg_index_bits (configs ! i))
            (cfg_tag_bits (configs ! i)) = Inr fresh"
      and a: "addBranches (rev h) fresh = Inr q" and okf: "tracker_ok fresh"
      and gf: "ghist_bits fresh = cfg_ghist_bits (configs ! i)"
      and gq: "ghist_bits q = cfg_ghist_bits (configs ! i)"
      by (rule replayed_config)
    from ag have gp: "ghist_bits (path (ep_components st ! i)) = cfg_ghist_bits (configs ! i)"
      by (simp add: agree_def same_config_def gq)
    show ?thesis
    proof (cases "cfg_ghist_bits (configs ! i) = 0")
      case True
      with gf have "addBranches (rev h) fresh = Inr fresh"
        "addBranches (rev (drop k h)) fresh = Inr fresh"
        by (simp_all add: addBranches_no_history)
      with a f have "q = fresh" "replayed (configs ! i) (rev (drop k h)) = Inr q"
        by (simp_all add: replayed_def)
      moreover from True gp have "revertBranches num (path (ep_components st ! i))
          = Inr (path (ep_components st ! i))"
        by (simp add: revertBranches_def)
      moreover from ag True gp have "agree (d + k) (path (ep_components st ! i)) q"
        by (simp add: agree_def)
      ultimately show ?thesis by blast
    next
      case False
      with fits i have "unat (cfg_ghist_bits (configs ! i)) + 64 \<le> 200"
        by (auto simp: history_fits_def MAX_HIST_def MAX_BRANCH_SPEC_DISTANCE_def)
      with dq have room: "unat (ghist_bits fresh) + d + k \<le> 200"
        by (simp add: gf k_def)
      from qh have kh: "k \<le> length h" by (simp add: k_def)
      from False gf have g: "ghist_bits fresh \<noteq> 0" by simp
      from agree_revertBranches_loop [OF okf g a ag kh room] obtain p' q' where
        "revertBranches_loop k (path (ep_components st ! i)) = Inr p'"
        "addBranches (rev (drop k h)) fresh = Inr q'" "agree (d + k) p' q'"
        by blast
      with False gp f num show ?thesis
        by (auto simp: revertBranches_def replayed_def)
    qed
  qed
  then have "\<forall>i<length (ep_components st). \<exists>p. revertBranches num (path (ep_components st ! i)) = Inr p"
    using n by auto
  from revertBranches_all_paths [OF this] obtain cs where
    cs: "revertBranches_all num (ep_components st) = Inr cs" "length cs = length (ep_components st)"
      "\<forall>i<length (ep_components st).
         revertBranches num (path (ep_components st ! i)) = Inr (path (cs ! i))"
    by blast
  let ?st' = "st\<lparr>ep_components := cs, branch_queue := q'\<rparr>"
  have sq: "squash seqNum st = Inr ?st'"
    by (simp add: squash_def sl cs(1))
  have "\<exists>q. replayed (configs ! i) (rev (drop k h)) = Inr q \<and> agree (d + k) (path (cs ! i)) q"
    if i: "i < length configs" for i
    using comp [OF i] cs(3) i n by auto
  moreover from dq shorter have "length q' + (d + k) \<le> 64" by (simp add: k_def)
  moreover from qh shorter have "length q' \<le> length (drop k h)" by (simp add: k_def)
  ultimately have "tracks configs (d + k) ?st' (drop k h)"
    using cs(2) n by (simp add: tracks_iff)
  with sq below show ?thesis
    unfolding h' by (simp add: k_def)
qed


lemma tracks_new:
  assumes "EqualityPredictor_new configs = Inr st0"
  shows "tracks configs 0 st0 []"
proof -
  have ok: "\<forall>c\<in>set configs. \<not> cfg_index_bits c + cfg_tag_bits c > 31"
  proof (rule ccontr)
    assume "\<not> ?thesis"
    then have "\<exists>c\<in>set configs. cfg_index_bits c + cfg_tag_bits c > 31" by simp
    then have "emplace_components configs = Inl InvalidArgument"
      by (rule emplace_components_fail)
    with assms show False by (simp add: EqualityPredictor_new_def)
  qed
  from emplace_components_ok [OF ok] assms
  have st0: "st0 = \<lparr>ep_components = map component_of_config configs, branch_queue = []\<rparr>"
    by (simp add: EqualityPredictor_new_def)
  have "\<exists>q. replayed (configs ! i) (rev []) = Inr q \<and> agree 0 (path (ep_components st0 ! i)) q"
    if "i < length configs" for i
    using that ok
    by (simp add: replayed_def PathTracker_new_def st0 component_of_config_def)
  then show ?thesis
    by (simp add: tracks_iff st0)
qed

lemma tracks_run:
  assumes "history_fits configs"
  shows "tracks configs d st h \<Longrightarrow> run operations st h = Inr (st', h')
    \<Longrightarrow> \<exists>d'. tracks configs d' st' h'"
proof (induction operations arbitrary: d st h)
  case Nil
  then show ?case by auto
next
  case (Cons operation operations)
  from Cons.prems(2) obtain st1 where
    a: "apply_operation operation st = Inr st1"
    and r: "run operations st1 (outcomes_after operation st h) = Inr (st', h')"
    by (auto split: sum.splits)
  have "\<exists>d1. tracks configs d1 st1 (outcomes_after operation st h)"
  proof (cases operation)
    case (UpdateOnBranch seqNum outcome)
    with a tracks_updateOnBranch [OF Cons.prems(1) assms] show ?thesis by auto
  next
    case (OnBranchCommit seqNum)
    with a tracks_onBranchCommit [OF Cons.prems(1)] show ?thesis by auto
  next
    case (OnValueCommit pc wasEqual rnd)
    with a have "onValueCommit pc wasEqual rnd st = Inr st1" by simp
    from tracks_onValueCommit [OF Cons.prems(1) this] OnValueCommit show ?thesis by auto
  next
    case (Squash seqNum)
    with a tracks_squash [OF Cons.prems(1) assms, of seqNum] show ?thesis by auto
  qed
  then obtain d1 where "tracks configs d1 st1 (outcomes_after operation st h)" ..
  from Cons.IH [OF this r] show ?case .
qed

text \<open>
  Where claim C1 holds: when every component has \<^verbatim>\<open>ghist_bits = 0\<close> or
  \<^verbatim>\<open>ghist_bits + 64 \<le> 200\<close>, in every state reached from construction with an ascending
  branch queue \<^verbatim>\<open>squash(s)\<close> returns, leaves no sequence number \<open>\<ge> s\<close> in the queue, and
  leaves in every component the \<^verbatim>\<open>folded_path\<close> of a fresh tracker of its configuration
  into which the surviving outcomes were replayed.
\<close>

theorem squash_restores_history:
  assumes "EqualityPredictor_new configs = Inr st0"
    and "run operations st0 [] = Inr (st, h)"
    and "history_fits configs"
    and "sorted (branch_queue st)"
  shows "\<exists>st'. squash seqNum st = Inr st'
     \<and> (\<forall>x\<in>set (branch_queue st'). x < seqNum)
     \<and> (\<forall>i<length configs. \<exists>q.
           replayed (configs ! i) (rev (outcomes_after (Squash seqNum) st h)) = Inr q
           \<and> folded_path (path (ep_components st' ! i)) = folded_path q)"
proof -
  from tracks_new [OF assms(1)] assms(2) obtain d where "tracks configs d st h"
    using tracks_run [OF assms(3)] by blast
  from tracks_squash [OF this assms(3), of seqNum] assms(4) obtain st' d' where
    "squash seqNum st = Inr st'" "\<forall>x\<in>set (branch_queue st'). x < seqNum"
    "tracks configs d' st' (outcomes_after (Squash seqNum) st h)"
    by blast
  then show ?thesis
    unfolding tracks_iff agree_def by blast
qed


lemma run_append:
  "run (xs @ ys) st h =
     (case run xs st h of Inl e \<Rightarrow> Inl e | Inr (st', h') \<Rightarrow> run ys st' h')"
  by (induction xs arbitrary: st h) (auto split: sum.splits)

lemma tracker_200_1_0_config:
  "fold_defined (tracker_200_1_0 fp buf)" "ghist_bits (tracker_200_1_0 fp buf) \<noteq> 0"
  "width (tracker_200_1_0 fp buf) = 1" "fold_position (tracker_200_1_0 fp buf) = 0"
  "unat (ghist_bits (tracker_200_1_0 fp buf)) = 200"
  by (simp_all add: tracker_200_1_0_def fold_defined_def MAX_HIST_def width_def fold_position_def)

lemma addBranch_200_1_0:
  "addBranch outcome (tracker_200_1_0 fp buf)
     = Inr (tracker_200_1_0 (fold_in 1 0 fp (bit buf 199) outcome)
              (bitset_assign 0 outcome (push_bit 1 buf)))"
  by (simp add: addBranch_cases tracker_200_1_0_config del: push_bit_Suc One_nat_def)
     (simp add: tracker_200_1_0_def)

lemma updateOnBranch_200:
  "length q < 64 \<Longrightarrow>
   updateOnBranch seqNum outcome (predictor_200 fp buf q)
     = Inr (predictor_200 (fold_in 1 0 fp (bit buf 199) outcome)
              (bitset_assign 0 outcome (push_bit 1 buf)) (q @ [seqNum]))"
  by (simp add: updateOnBranch_def predictor_200_def component_addBranch_def addBranch_200_1_0
      MAX_BRANCH_SPEC_DISTANCE_def del: push_bit_Suc One_nat_def)

lemma onBranchCommit_200:
  "onBranchCommit seqNum (predictor_200 fp buf (seqNum # q)) = Inr (predictor_200 fp buf q)"
  by (simp add: onBranchCommit_def predictor_200_def)

lemma idle_pair_200:
  assumes "n < 199"
  shows "run [UpdateOnBranch 0 False, OnBranchCommit 0] (predictor_200 1 (2 ^ n) []) h
     = Inr (predictor_200 1 (2 ^ Suc n) [], False # h)"
proof -
  from assms have "\<not> bit (2 ^ n :: 200 word) 199" by (simp add: bit_exp_iff)
  moreover have "fold_in 1 0 1 False False = 1" by (simp add: fold_in_def)
  ultimately show ?thesis
    by (simp add: updateOnBranch_200 onBranchCommit_200 pushed_power [OF assms]
        del: push_bit_Suc One_nat_def power_Suc)
qed

lemma idle_pairs_200:
  "n + k \<le> 199 \<Longrightarrow>
   run (concat (replicate k [UpdateOnBranch 0 False, OnBranchCommit 0]))
     (predictor_200 1 (2 ^ n) []) h
   = Inr (predictor_200 1 (2 ^ (n + k)) [], replicate k False @ h)"
proof (induction k arbitrary: n h)
  case 0
  then show ?case by simp
next
  case (Suc k)
  from Suc.prems have n: "n < 199" and rest: "Suc n + k \<le> 199" by simp_all
  have "run (concat (replicate (Suc k) [UpdateOnBranch 0 False, OnBranchCommit 0]))
          (predictor_200 1 (2 ^ n) []) h
      = run (concat (replicate k [UpdateOnBranch 0 False, OnBranchCommit 0]))
          (predictor_200 1 (2 ^ Suc n) []) (False # h)"
    using idle_pair_200 [OF n, of h]
    by (simp only: replicate_Suc concat.simps run_append sum.case prod.case)
  also have "\<dots> = Inr (predictor_200 1 (2 ^ (Suc n + k)) [], replicate k False @ False # h)"
    using rest by (rule Suc.IH)
  finally show ?case
    by (simp add: replicate_append_same)
qed

lemma first_pair_200:
  "run [UpdateOnBranch 0 True, OnBranchCommit 0] (predictor_200 0 0 []) []
     = Inr (predictor_200 1 (2 ^ 0) [], [True])"
  by (simp add: updateOnBranch_200 onBranchCommit_200 fold_in_def bitset_assign_def)

lemma last_branch_200:
  "run [UpdateOnBranch 1 False] (predictor_200 1 (2 ^ 199) []) h
     = Inr (predictor_200 0 0 [1], False # h)"
proof -
  have "bitset_assign 0 False (push_bit 1 (2 ^ 199 :: 200 word)) = 0"
  proof (rule bit_word_eqI)
    fix k assume "k < LENGTH(200)"
    then show "bit (bitset_assign 0 False (push_bit 1 (2 ^ 199 :: 200 word))) k = bit (0 :: 200 word) k"
      unfolding bit_buffer_pushed bit_exp_iff possible_bit_word
      by auto
  qed
  moreover have "fold_in 1 0 1 True False = 0" by (simp add: fold_in_def)
  moreover have "bit (2 ^ 199 :: 200 word) 199" by (simp add: bit_exp_iff)
  ultimately show ?thesis
    by (simp add: updateOnBranch_200 del: push_bit_Suc One_nat_def)
qed

lemma run_squashed_late:
  "run squashed_late (predictor_200 0 0 []) []
     = Inr (predictor_200 0 0 [1], False # replicate 199 False @ [True])"
  unfolding squashed_late_def
  using idle_pairs_200 [of 0 199 "[True]"]
  by (simp only: run_append first_pair_200 last_branch_200 sum.case prod.case add_0)


lemma squash_200:
  "squash 1 (predictor_200 0 0 [1]) = Inr (predictor_200 0 0 [])"
proof -
  have loop: "squash_loop 1 [1] 0 = ([], 1)"
    by (simp add: squash_loop.simps [of 1 "[1]"] squash_loop.simps [of 1 "[]"])
  have "revertBranches 1 (tracker_200_1_0 0 0) = Inr (tracker_200_1_0 0 0)"
    by (simp add: revertBranches_one revertBranches_step_defined tracker_200_1_0_config
        fold_out_def)
       (simp add: tracker_200_1_0_def)
  then show ?thesis
    by (simp add: squash_def loop predictor_200_def component_revertBranches_def)
qed

lemma replayed_200:
  "replayed \<lparr>cfg_size = 2, cfg_ghist_bits = 200, cfg_index_bits = 1, cfg_tag_bits = 0\<rparr>
     (True # replicate 199 False) = Inr (tracker_200_1_0 1 (2 ^ 199))"
proof -
  have step: "addBranch False (tracker_200_1_0 1 (2 ^ n)) = Inr (tracker_200_1_0 1 (2 ^ Suc n))"
    if "n < 199" for n
  proof -
    from that have "\<not> bit (2 ^ n :: 200 word) 199" by (simp add: bit_exp_iff)
    moreover have "fold_in 1 0 1 False False = 1" by (simp add: fold_in_def)
    ultimately show ?thesis
      unfolding addBranch_200_1_0 pushed_power [OF that] by simp
  qed
  have idle: "addBranches (replicate k False) (tracker_200_1_0 1 (2 ^ n))
      = Inr (tracker_200_1_0 1 (2 ^ (n + k)))" if "n + k \<le> 199" for n k
    using that
  proof (induction k arbitrary: n)
    case 0
    then show ?case by simp
  next
    case (Suc k)
    from Suc.prems have "n < 199" "Suc n + k \<le> 199" by simp_all
    with step [of n] Suc.IH [of "Suc n"] show ?case by simp
  qed
  have first: "addBranch True (tracker_200_1_0 0 0) = Inr (tracker_200_1_0 1 (2 ^ 0))"
    by (simp add: addBranch_200_1_0 fold_in_def bitset_assign_def)
  have new: "PathTracker_new 200 1 0 = Inr (tracker_200_1_0 0 0)"
    by (simp add: PathTracker_new_def tracker_200_1_0_def)
  from first idle [of 0 199] new show ?thesis
    by (simp add: replayed_def)
qed

text \<open>
  Claim C1 at a predictor with \<^verbatim>\<open>ghist_bits = 200\<close>. One taken and 199 not-taken branches
  are announced and committed, a further branch with sequence number 1 is announced, and
  \<^verbatim>\<open>squash(1)\<close> is called on the ascending queue \<open>[1]\<close>. The 201st \<^verbatim>\<open>addBranch\<close> has
  shifted the taken outcome out of the 200-bit buffer, so \<^verbatim>\<open>revertBranches\<close> folds a 0
  back in: \<^verbatim>\<open>folded_path\<close> is 0 after the squash, and 1 in a fresh tracker into which the
  200 surviving outcomes are replayed.
\<close>

theorem squash_loses_history_at_200:
  "EqualityPredictor_new
     [\<lparr>cfg_size = 2, cfg_ghist_bits = 200, cfg_index_bits = 1, cfg_tag_bits = 0\<rparr>]
     = Inr (predictor_200 0 0 [])
   \<and> run squashed_late (predictor_200 0 0 []) []
     = Inr (predictor_200 0 0 [1], False # replicate 199 False @ [True])
   \<and> sorted (branch_queue (predictor_200 0 0 [1]))
   \<and> squash 1 (predictor_200 0 0 [1]) = Inr (predictor_200 0 0 [])
   \<and> rev (outcomes_after (Squash 1) (predictor_200 0 0 [1])
             (False # replicate 199 False @ [True]))
     = True # replicate 199 False
   \<and> replayed \<lparr>cfg_size = 2, cfg_ghist_bits = 200, cfg_index_bits = 1, cfg_tag_bits = 0\<rparr>
       (True # replicate 199 False) = Inr (tracker_200_1_0 1 (2 ^ 199))
   \<and> folded_path (path (ep_components (predictor_200 0 0 []) ! 0)) = 0
   \<and> folded_path (tracker_200_1_0 1 (2 ^ 199)) = 1"
proof -
  have new: "EqualityPredictor_new
     [\<lparr>cfg_size = 2, cfg_ghist_bits = 200, cfg_index_bits = 1, cfg_tag_bits = 0\<rparr>]
     = Inr (predictor_200 0 0 [])"
    by (simp add: EqualityPredictor_new_def EqualityPredictorComponent_new_def PathTracker_new_def
        predictor_200_def tracker_200_1_0_def)
  have loop: "squash_loop 1 [1] 0 = ([], 1)"
    by (simp add: squash_loop.simps [of 1 "[1]"] squash_loop.simps [of 1 "[]"])
  have h: "rev (outcomes_after (Squash 1) (predictor_200 0 0 [1])
             (False # replicate 199 False @ [True])) = True # replicate 199 False"
    by (simp add: predictor_200_def loop)
  have fp: "folded_path (path (ep_components (predictor_200 0 0 []) ! 0)) = 0"
    "folded_path (tracker_200_1_0 1 (2 ^ 199)) = 1"
    by (simp_all add: predictor_200_def tracker_200_1_0_def)
  have s: "sorted (branch_queue (predictor_200 0 0 [1]))"
    by (simp add: predictor_200_def)
  from new run_squashed_late s squash_200 h replayed_200 fp show ?thesis
    by (simp only: simp_thms)
qed

lemma new_predictor_5:
  "EqualityPredictor_new
     [\<lparr>cfg_size = 4, cfg_ghist_bits = 5, cfg_index_bits = 2, cfg_tag_bits = 3\<rparr>]
     = Inr (predictor_5 0 0 [])"
  by (simp add: EqualityPredictor_new_def EqualityPredictorComponent_new_def PathTracker_new_def
      predictor_5_def tracker_5_2_3_def)

lemma run_predictor_5:
  "run [UpdateOnBranch 10 True, UpdateOnBranch 20 True, UpdateOnBranch 30 True]
     (predictor_5 0 0 []) [] = Inr (predictor_5 7 7 [10, 20, 30], [True, True, True])"
  by (simp add: updateOnBranch_def predictor_5_def component_addBranch_def addBranch_5_2_3
      MAX_BRANCH_SPEC_DISTANCE_def fold_in_def bitset_assign_def)

lemma squash_predictor_5:
  "squash 20 (predictor_5 7 7 [10, 20, 30]) = Inr (predictor_5 1 1 [10])"
proof -
  have loop: "squash_loop 20 [10, 20, 30] 0 = ([10], 2)"
    by (simp add: squash_loop.simps [of 20 "[10, 20, 30]"] squash_loop.simps [of 20 "[10, 20]"]
        squash_loop.simps [of 20 "[10]"])
  have two: "unat (2 :: size_t) = Suc (Suc 0)" by simp
  have "revertBranches 2 (tracker_5_2_3 7 7) = Inr (tracker_5_2_3 1 1)"
    unfolding revertBranches_def two
    by (simp add: tracker_5_2_3_config revertBranches_step_defined fold_out_def)
       (simp add: tracker_5_2_3_def)
  then show ?thesis
    by (simp add: squash_def loop predictor_5_def component_revertBranches_def)
qed

theorem squash_restores_history_witness:
  "EqualityPredictor_new
     [\<lparr>cfg_size = 4, cfg_ghist_bits = 5, cfg_index_bits = 2, cfg_tag_bits = 3\<rparr>]
     = Inr (predictor_5 0 0 [])
   \<and> run [UpdateOnBranch 10 True, UpdateOnBranch 20 True, UpdateOnBranch 30 True]
       (predictor_5 0 0 []) [] = Inr (predictor_5 7 7 [10, 20, 30], [True, True, True])
   \<and> squash 20 (predictor_5 7 7 [10, 20, 30]) = Inr (predictor_5 1 1 [10])
   \<and> replayed \<lparr>cfg_size = 4, cfg_ghist_bits = 5, cfg_index_bits = 2, cfg_tag_bits = 3\<rparr> [True]
     = Inr (tracker_5_2_3 1 1)
   \<and> folded_path (path (ep_components (predictor_5 1 1 [10]) ! 0)) = folded_path (tracker_5_2_3 1 1)"
proof -
  have fits: "history_fits
      [\<lparr>cfg_size = 4, cfg_ghist_bits = 5, cfg_index_bits = 2, cfg_tag_bits = 3\<rparr>]"
    by (simp add: history_fits_def MAX_HIST_def MAX_BRANCH_SPEC_DISTANCE_def)
  have asc: "sorted (branch_queue (predictor_5 7 7 [10, 20, 30]))"
    by (simp add: predictor_5_def)
  have loop: "squash_loop 20 [10, 20, 30] 0 = ([10], 2)"
    by (simp add: squash_loop.simps [of 20 "[10, 20, 30]"] squash_loop.simps [of 20 "[10, 20]"]
        squash_loop.simps [of 20 "[10]"])
  have h: "rev (outcomes_after (Squash 20) (predictor_5 7 7 [10, 20, 30]) [True, True, True])
      = [True]"
    by (simp add: predictor_5_def loop)
  have rep: "replayed \<lparr>cfg_size = 4, cfg_ghist_bits = 5, cfg_index_bits = 2, cfg_tag_bits = 3\<rparr>
      [True] = Inr (tracker_5_2_3 1 1)"
    by (simp add: replayed_def PathTracker_new_def addBranch_5_2_3 [unfolded tracker_5_2_3_def]
        fold_in_def bitset_assign_def tracker_5_2_3_def)
  from squash_restores_history [OF new_predictor_5 run_predictor_5 fits asc, of 20]
  have "folded_path (path (ep_components (predictor_5 1 1 [10]) ! 0))
      = folded_path (tracker_5_2_3 1 1)"
    unfolding squash_predictor_5 h by (simp add: rep)
  with new_predictor_5 run_predictor_5 squash_predictor_5 rep show ?thesis
    by (simp only: simp_thms)
qed


end
